theory Spec2Isabelle
  imports Main "HOL-Library.Word" "HOL-Library.Monad_Syntax"
begin

unbundle bit_operations_syntax

section \<open>The serial command interpreter of commands.c\<close>

text \<open>
  The C code works on character arrays of a fixed size, on NUL-terminated strings and on
  pointers that may be null. In this embedding
  \<^item> a character array is a \<open>char list\<close> whose length is the size of the array;
  \<^item> a \<open>const char*\<close> string argument is the list of the characters at the pointer;
    \<open>strlen\<close> stops at the first NUL or at the end of the list, so the terminator is
    implicit and nothing after an embedded NUL is looked at;
  \<^item> a pointer that the code tests against null is a value of \<open>'a ptr\<close>;
  \<^item> every function returns an \<open>option\<close>: \<open>None\<close> stands for undefined behaviour
    (an access outside an array, a null dereference), so that memory safety is a
    statement about the model and not an assumption of it;
  \<^item> \<open>MSG_BUFFER_LENGTH\<close> comes from a header that is not part of the sources at hand;
    it is the parameter \<open>L\<close> of every function that uses it.
\<close>

subsection \<open>Pointers, arrays and the C library\<close>

datatype 'a ptr = NULL | Ptr 'a

definition deref :: "'a ptr \<Rightarrow> 'a option" where
  "deref p = (case p of NULL \<Rightarrow> None | Ptr x \<Rightarrow> Some x)"

abbreviation NUL :: char where
  "NUL \<equiv> CHR 0x00"

definition poke :: "char list \<Rightarrow> nat \<Rightarrow> char \<Rightarrow> char list option" where
  \<comment> \<open>\<open>buf[i] = c\<close>\<close>
  "poke buf i c = (if i < length buf then Some (buf[i := c]) else None)"

definition peek :: "'a list \<Rightarrow> nat \<Rightarrow> 'a option" where
  \<comment> \<open>\<open>buf[i]\<close> read from an array\<close>
  "peek buf i = (if i < length buf then Some (buf ! i) else None)"

definition strlen :: "string \<Rightarrow> nat" where
  "strlen s = length (takeWhile (\<lambda>c. c \<noteq> NUL) s)"

definition char_at :: "string \<Rightarrow> nat \<Rightarrow> char" where
  \<comment> \<open>\<open>s[i]\<close> for a string given by its characters: the terminator sits at its end\<close>
  "char_at s i = (if i < length s then s ! i else NUL)"

definition c_str :: "char list \<Rightarrow> string option" where
  \<comment> \<open>the string held by an array: its characters before the first NUL;
      reading an array that holds no NUL runs off its end\<close>
  "c_str buf = (if NUL \<in> set buf then Some (takeWhile (\<lambda>c. c \<noteq> NUL) buf) else None)"

definition memset :: "char list \<Rightarrow> char \<Rightarrow> nat \<Rightarrow> char list option" where
  "memset buf c n = (if n \<le> length buf then Some (replicate n c @ drop n buf) else None)"

definition strcpy :: "char list \<Rightarrow> string \<Rightarrow> char list option" where
  \<comment> \<open>copies the characters of \<open>src\<close> and the terminator\<close>
  "strcpy dst src =
     (let s = takeWhile (\<lambda>c. c \<noteq> NUL) src @ [NUL]
      in if length s \<le> length dst then Some (s @ drop (length s) dst) else None)"

definition strncpy :: "char list \<Rightarrow> string \<Rightarrow> nat \<Rightarrow> char list option" where
  \<comment> \<open>writes exactly \<open>n\<close> bytes: at most \<open>n\<close> characters of \<open>src\<close>, then NUL padding\<close>
  "strncpy dst src n =
     (let s = take n (takeWhile (\<lambda>c. c \<noteq> NUL) src)
      in if n \<le> length dst then Some (s @ replicate (n - length s) NUL @ drop n dst)
         else None)"

definition snprintf :: "char list \<Rightarrow> nat \<Rightarrow> string \<Rightarrow> char list option" where
  \<comment> \<open>\<open>txt\<close> is the formatted text; at most \<open>n - 1\<close> of its characters are stored,
      followed by the terminator\<close>
  "snprintf buf n txt =
     (if n = 0 then Some buf
      else let s = take (n - 1) txt @ [NUL]
           in if length s \<le> length buf then Some (s @ drop (length s) buf) else None)"

definition tolower :: "char \<Rightarrow> char" where
  \<comment> \<open>the C locale: only \<open>A\<close> .. \<open>Z\<close> change\<close>
  "tolower c =
     (if (65::nat) \<le> of_char c \<and> of_char c \<le> (90::nat)
      then char_of (of_char c + (32::nat)) else c)"

definition isspace :: "char \<Rightarrow> bool" where
  \<comment> \<open>the C locale: space, and \<open>\t \n \v \f \r\<close>\<close>
  "isspace c \<longleftrightarrow> c = CHR '' '' \<or> ((9::nat) \<le> of_char c \<and> of_char c \<le> (13::nat))"

subsection \<open>Formatting numbers\<close>

definition digit_char :: "nat \<Rightarrow> char" where
  "digit_char d = ''0123456789'' ! d"

fun dec_str :: "nat \<Rightarrow> string" where
  \<comment> \<open>what \<open>%u\<close> and \<open>PRIu32\<close> print\<close>
  "dec_str n = (if n < 10 then [digit_char n] else dec_str (n div 10) @ [digit_char (n mod 10)])"

declare dec_str.simps [simp del]

definition lld_str :: "int \<Rightarrow> string" where
  \<comment> \<open>what \<open>%lld\<close> prints\<close>
  "lld_str i = (if i < 0 then CHR ''-'' # dec_str (nat (- i)) else dec_str (nat i))"

subsection \<open>strtoul\<close>

text \<open>
  \<open>strtoul\<close> is the C library's, here the one of newlib, which the ESP32 toolchain
  links: white space is skipped, one sign is accepted, base 16 accepts a \<open>0x\<close> prefix,
  then the digits of the base are accumulated. An overflow gives \<open>ULONG_MAX\<close>, a minus
  sign negates the value in \<open>unsigned long\<close>, which has 32 bits on this target. When no
  digit was read, the end pointer is the start of the string. The result is the value
  and the distance from the start to the end pointer.
\<close>

definition ULONG_MAX :: nat where
  "ULONG_MAX = 4294967295"

definition digit_val :: "char \<Rightarrow> nat option" where
  "digit_val c =
     (let k = (of_char c :: nat)
      in if 48 \<le> k \<and> k \<le> 57 then Some (k - 48)
         else if 65 \<le> k \<and> k \<le> 90 then Some (k - 55)
         else if 97 \<le> k \<and> k \<le> 122 then Some (k - 87)
         else None)"

fun strtoul_digits :: "nat \<Rightarrow> string \<Rightarrow> nat \<Rightarrow> int \<Rightarrow> nat \<times> int \<times> nat" where
  \<comment> \<open>the accumulating loop: the value, the flag \<open>any\<close>, the number of characters read\<close>
  "strtoul_digits base [] acc any = (acc, any, 0)"
| "strtoul_digits base (c # cs) acc any =
     (case digit_val c of
        None \<Rightarrow> (acc, any, 0)
      | Some d \<Rightarrow>
          if d \<ge> base then (acc, any, 0)
          else
            let (acc', any') =
                  (if any < 0 \<or> acc > ULONG_MAX div base
                      \<or> (acc = ULONG_MAX div base \<and> d > ULONG_MAX mod base)
                   then (acc, - 1)
                   else ((acc * base + d) mod 2 ^ 32, 1));
                (a, y, n) = strtoul_digits base cs acc' any'
            in (a, y, Suc n))"

definition strtoul :: "string \<Rightarrow> nat \<Rightarrow> nat \<times> nat" where
  "strtoul nptr base0 =
     (let ws = length (takeWhile isspace nptr);
          s1 = drop ws nptr;
          neg = (char_at s1 0 = CHR ''-'');
          sg = (if char_at s1 0 = CHR ''-'' \<or> char_at s1 0 = CHR ''+'' then 1 else 0);
          s2 = drop sg s1;
          px = (if (base0 = 0 \<or> base0 = 16) \<and> char_at s2 0 = CHR ''0''
                   \<and> (char_at s2 1 = CHR ''x'' \<or> char_at s2 1 = CHR ''X'')
                then 2 else 0);
          s3 = drop px s2;
          base = (if px = 2 then 16
                  else if base0 = 0 then (if char_at s3 0 = CHR ''0'' then 8 else 10)
                  else base0);
          (acc, any, n) = strtoul_digits base s3 0 0;
          val = (if any < 0 then ULONG_MAX
                 else if neg then (2 ^ 32 - acc) mod 2 ^ 32
                 else acc)
      in (val, if any \<noteq> 0 then ws + sg + px + n else 0))"

subsection \<open>The platform\<close>

text \<open>
  The ESP-IDF calls are outside the sources: what they return is a field of the record
  below (\<open>esp_read_mac hw i\<close> is byte \<open>i\<close> of the address that the call stores). \<open>stack\<close> gives the bytes that a local array holds before it is initialised.
\<close>

record platform =
  esp_read_mac :: "nat \<Rightarrow> 8 word"
  esp_timer_get_time :: "64 word"
  chip_info_cores :: "8 word"
  esp_get_free_heap_size :: "32 word"
  stack :: "nat \<Rightarrow> char"

subsection \<open>The Command structure\<close>

datatype CommandToken =
  COMMAND_UNKNOWN | COMMAND_MAC | COMMAND_ID | COMMAND_STATUS | COMMAND_DEC

record Command =
  key :: CommandToken
  command :: "char list"
  argument :: "char list"

definition init_Command :: "nat \<Rightarrow> Command ptr \<Rightarrow> Command ptr option" where
  "init_Command L cmd =
     (case cmd of
        NULL \<Rightarrow> Some NULL
      | Ptr c \<Rightarrow>
          do {
            n \<leftarrow> memset (command c) NUL L;
            a \<leftarrow> memset (argument c) NUL L;
            Some (Ptr \<lparr>key = COMMAND_UNKNOWN, command = n, argument = a\<rparr>)
          })"

subsection \<open>The tokenizer\<close>

text \<open>
  The loop of \<open>parse_input\<close> visits \<open>in_msg[0]\<close> to \<open>in_msg[len - 1]\<close> in order; the
  recursion below runs over these characters. \<open>target\<close> is the argument array exactly
  when \<open>has_split\<close> is set: the two are assigned together. The counters are natural
  numbers: they stay below \<open>len\<close>, which is below \<open>MSG_BUFFER_LENGTH\<close>.
\<close>

fun parse_loop :: "string \<Rightarrow> nat \<Rightarrow> bool \<Rightarrow> Command \<Rightarrow> Command option" where
  "parse_loop [] at_dst has_split cmd = Some cmd"
| "parse_loop (c # cs) at_dst has_split cmd =
     (if (c = CHR '' '' \<or> c = CHR 0x09) \<and> \<not> has_split then parse_loop cs 0 True cmd
      else if has_split then
        do {
          a \<leftarrow> poke (argument cmd) at_dst c;
          parse_loop cs (at_dst + 1) has_split (cmd\<lparr>argument := a\<rparr>)
        }
      else
        do {
          n \<leftarrow> poke (command cmd) at_dst (tolower c);
          parse_loop cs (at_dst + 1) has_split (cmd\<lparr>command := n\<rparr>)
        })"

definition parse_input :: "nat \<Rightarrow> string ptr \<Rightarrow> Command ptr \<Rightarrow> (int \<times> Command ptr) option" where
  "parse_input L in_msg out_cmd =
     (case in_msg of
        NULL \<Rightarrow> Some (- 1, out_cmd)
      | Ptr msg \<Rightarrow>
          if out_cmd = NULL then Some (- 1, out_cmd)
          else
            let len = strlen msg
            in if len \<ge> L then Some (- 2, out_cmd)
               else
                 do {
                   p \<leftarrow> init_Command L out_cmd;
                   cmd0 \<leftarrow> deref p;
                   cmd \<leftarrow> parse_loop (take len msg) 0 False cmd0;
                   name \<leftarrow> c_str (command cmd);
                   Some (0, Ptr (cmd\<lparr>key :=
                     (if name = ''mac'' then COMMAND_MAC
                      else if name = ''id'' then COMMAND_ID
                      else if name = ''status'' then COMMAND_STATUS
                      else if name = ''dec'' then COMMAND_DEC
                      else key cmd)\<rparr>))
                 })"

subsection \<open>The handlers\<close>

definition hexmap :: string where
  "hexmap = ''0123456789ABCDEF''"

function mac_to_string_loop ::
  "8 word list \<Rightarrow> nat \<Rightarrow> nat \<Rightarrow> nat \<Rightarrow> char list \<Rightarrow> char list option" where
  "mac_to_string_loop mac off i at out =
     (if i < 6 then
        do {
          b \<leftarrow> peek mac i;
          hi \<leftarrow> peek hexmap (unat (drop_bit 4 (b AND 0xF0)));
          lo \<leftarrow> peek hexmap (unat (b AND 0x0F));
          out1 \<leftarrow> poke out (off + at) hi;
          out2 \<leftarrow> poke out1 (off + at + 1) lo;
          if i < 5 then
            do {
              out3 \<leftarrow> poke out2 (off + at + 2) (CHR '':'');
              mac_to_string_loop mac off (i + 1) (at + 3) out3
            }
          else mac_to_string_loop mac off (i + 1) (at + 2) out2
        }
      else Some out)"
  by pat_completeness auto
termination
  by (relation "measure (\<lambda>(mac, off, i, at, out). 6 - i)") auto

declare mac_to_string_loop.simps [simp del]

definition mac_to_string :: "8 word list ptr \<Rightarrow> char list ptr \<Rightarrow> nat \<Rightarrow> char list ptr option" where
  \<comment> \<open>\<open>out\<close> points \<open>off\<close> bytes into the array; the array after the call is returned\<close>
  "mac_to_string mac out off =
     (case (mac, out) of
        (Ptr m, Ptr b) \<Rightarrow> map_option Ptr (mac_to_string_loop m off 0 0 b)
      | _ \<Rightarrow> Some out)"

definition process_cmd_mac :: "platform \<Rightarrow> Command \<Rightarrow> char list \<Rightarrow> (int \<times> char list) option" where
  "process_cmd_mac hw in_cmd out_msg =
     do {
       let local_mac = map (esp_read_mac hw) [0..<6];
       let prefix = ''MAC '';
       out1 \<leftarrow> strcpy out_msg prefix;
       p \<leftarrow> mac_to_string (Ptr local_mac) (Ptr out1) (strlen prefix);
       out2 \<leftarrow> deref p;
       Some (0, out2)
     }"

definition process_cmd_id :: "Command \<Rightarrow> char list \<Rightarrow> (int \<times> char list) option" where
  "process_cmd_id in_cmd out_msg =
     do {
       out1 \<leftarrow> strcpy out_msg ''ID: otf2@hi.is'';
       Some (0, out1)
     }"

definition process_cmd_status ::
  "nat \<Rightarrow> platform \<Rightarrow> Command \<Rightarrow> char list \<Rightarrow> (int \<times> char list) option" where
  "process_cmd_status L hw in_cmd out_msg =
     do {
       let t = sint (esp_timer_get_time hw);
       let time_s = sgn t * (\<bar>t\<bar> div 1000000);
       out1 \<leftarrow> snprintf out_msg L
         (''SYSTEM_UPTIME: '' @ lld_str time_s @ '' S '' @ [CHR 0x0A]
          @ ''AVAILABLE CORES: '' @ dec_str (unat (chip_info_cores hw)) @ '' '' @ [CHR 0x0A]
          @ ''AVAILABLE HEAP MEMORY: '' @ dec_str (unat (esp_get_free_heap_size hw)));
       Some (0, out1)
     }"

definition dec_base :: "string \<Rightarrow> nat" where
  \<comment> \<open>lines 213 to 231 of \<open>process_cmd_dec\<close>\<close>
  "dec_base num =
     (if char_at num 0 = CHR ''0'' \<and> strlen num > 1 then
        (let b = char_at num 1
         in if b = CHR ''b'' then 2 else if b = CHR ''x'' then 16 else 8)
      else 10)"

definition dec_sub :: "nat \<Rightarrow> nat" where
  \<comment> \<open>lines 235 to 243: where the string given to \<open>strtoul\<close> starts\<close>
  "dec_sub base = (if base = 10 then 0 else if base = 8 then 1 else 2)"

definition process_cmd_dec :: "nat \<Rightarrow> Command \<Rightarrow> char list \<Rightarrow> (int \<times> char list) option" where
  "process_cmd_dec L in_cmd out_msg =
     do {
       num \<leftarrow> c_str (argument in_cmd);
       let base = dec_base num;
       let (r, n) = strtoul (drop (dec_sub base) num) base;
       let con = (word_of_nat r :: 32 word);
       let end = dec_sub base + n;
       out1 \<leftarrow>
         (if end = 0 \<or> char_at num end \<noteq> NUL then strcpy out_msg ''ARGUMENT ERROR''
          else if con > 0xFFFF then strcpy out_msg ''ARGUMENT ERROR''
          else snprintf out_msg L (dec_str (unat con)));
       Some (0, out1)
     }"

subsection \<open>The dispatcher\<close>

definition local_array :: "nat \<Rightarrow> platform \<Rightarrow> char list" where
  \<comment> \<open>an array of \<open>L\<close> characters on the stack, not yet initialised\<close>
  "local_array L hw = map (stack hw) [0..<L]"

definition process_command ::
  "nat \<Rightarrow> platform \<Rightarrow> string ptr \<Rightarrow> char list ptr \<Rightarrow> (int \<times> char list ptr) option" where
  "process_command L hw in_msg out_msg =
     (if in_msg = NULL \<or> out_msg = NULL then Some (- 1, out_msg)
      else
        do {
          str_buffer \<leftarrow> memset (local_array L hw) NUL L;
          p0 \<leftarrow> init_Command L
            (Ptr \<lparr>key = COMMAND_UNKNOWN, command = local_array L hw,
                  argument = local_array L hw\<rparr>);
          (parse_result, p) \<leftarrow> parse_input L in_msg p0;
          cmd \<leftarrow> deref p;
          (command_result, buf) \<leftarrow>
            (case key cmd of
               COMMAND_MAC \<Rightarrow> process_cmd_mac hw cmd str_buffer
             | COMMAND_ID \<Rightarrow> process_cmd_id cmd str_buffer
             | COMMAND_STATUS \<Rightarrow> process_cmd_status L hw cmd str_buffer
             | COMMAND_DEC \<Rightarrow> process_cmd_dec L cmd str_buffer
             | COMMAND_UNKNOWN \<Rightarrow> Some (1, str_buffer));
          if command_result \<noteq> 0 then Some (command_result, out_msg)
          else
            do {
              buf1 \<leftarrow> poke buf (L - 1) NUL;
              out \<leftarrow> deref out_msg;
              out1 \<leftarrow> strncpy out buf1 L;
              Some (0, Ptr out1)
            }
        })"

subsection \<open>Notions for the statements\<close>

text \<open>A platform to run the code on: the address and the figures are arbitrary.\<close>

definition bench :: platform where
  "bench =
     \<lparr>esp_read_mac = (\<lambda>i. [0x01, 0x02, 0xAB, 0xCD, 0xEF, 0x00] ! i),
      esp_timer_get_time = 12345678,
      chip_info_cores = 2,
      esp_get_free_heap_size = 204800,
      stack = (\<lambda>i. CHR ''#'')\<rparr>"

text \<open>A Command after \<open>init_Command\<close>.\<close>

definition zero_Command :: "nat \<Rightarrow> Command" where
  "zero_Command L = \<lparr>key = COMMAND_UNKNOWN, command = replicate L NUL, argument = replicate L NUL\<rparr>"

text \<open>The two characters at which the tokenizer splits.\<close>

definition is_ws :: "char \<Rightarrow> bool" where
  "is_ws c \<longleftrightarrow> c = CHR '' '' \<or> c = CHR 0x09"

text \<open>An array of \<open>L\<close> characters that holds the string \<open>s\<close> and is zero after it.\<close>

definition pad :: "nat \<Rightarrow> string \<Rightarrow> char list" where
  "pad L s = s @ replicate (L - length s) NUL"

text \<open>The token that the comparisons at the end of \<open>parse_input\<close> give a name.\<close>

definition token_of :: "string \<Rightarrow> CommandToken" where
  "token_of name =
     (if name = ''mac'' then COMMAND_MAC
      else if name = ''id'' then COMMAND_ID
      else if name = ''status'' then COMMAND_STATUS
      else if name = ''dec'' then COMMAND_DEC
      else COMMAND_UNKNOWN)"

text \<open>The text that \<open>process_cmd_dec\<close> writes for the argument string \<open>num\<close>.\<close>

definition dec_text :: "string \<Rightarrow> string" where
  "dec_text num =
     (let base = dec_base num;
          (r, n) = strtoul (drop (dec_sub base) num) base;
          con = (word_of_nat r :: 32 word);
          end = dec_sub base + n
      in if end = 0 \<or> char_at num end \<noteq> NUL then ''ARGUMENT ERROR''
         else if con > 0xFFFF then ''ARGUMENT ERROR''
         else dec_str (unat con))"

text \<open>
  What the caller sees after \<open>process_command\<close>: the status and the string in the output
  buffer.
\<close>

definition reply :: "(int \<times> char list ptr) option \<Rightarrow> (int \<times> string) option" where
  "reply r = (case r of Some (st, Ptr b) \<Rightarrow> map_option (Pair st) (c_str b) | _ \<Rightarrow> None)"

text \<open>Decimal digits and the number that a string of them denotes.\<close>

definition is_digit :: "char \<Rightarrow> bool" where
  "is_digit c \<longleftrightarrow> (48::nat) \<le> of_char c \<and> of_char c \<le> (57::nat)"

definition dec_value :: "string \<Rightarrow> nat" where
  "dec_value ds = foldl (\<lambda>a c. a * 10 + (of_char c - 48)) 0 ds"

text \<open>
  The text of a hardware address as the specification words it: every byte as two
  upper-case hexadecimal digits, the high nibble first, the groups joined by colons.
\<close>

definition hex2 :: "8 word \<Rightarrow> string" where
  "hex2 b = [hexmap ! (unat b div 16), hexmap ! (unat b mod 16)]"

fun join_colon :: "string list \<Rightarrow> string" where
  "join_colon [] = []"
| "join_colon [x] = x"
| "join_colon (x # y # zs) = x @ CHR '':'' # join_colon (y # zs)"

definition mac_text :: "8 word list \<Rightarrow> string" where
  "mac_text mac = join_colon (map hex2 mac)"

text \<open>The array \<open>out\<close> with the characters \<open>t\<close> written over it from offset \<open>off\<close> on.\<close>

definition overlay :: "char list \<Rightarrow> nat \<Rightarrow> string \<Rightarrow> char list" where
  "overlay out off t = take off out @ t @ drop (off + length t) out"

text \<open>The text that \<open>process_cmd_status\<close> formats, before it is cut to the buffer.\<close>

definition status_text :: "platform \<Rightarrow> string" where
  "status_text hw =
     (let t = sint (esp_timer_get_time hw); time_s = sgn t * (\<bar>t\<bar> div 1000000)
      in ''SYSTEM_UPTIME: '' @ lld_str time_s @ '' S '' @ [CHR 0x0A]
          @ ''AVAILABLE CORES: '' @ dec_str (unat (chip_info_cores hw)) @ '' '' @ [CHR 0x0A]
          @ ''AVAILABLE HEAP MEMORY: '' @ dec_str (unat (esp_get_free_heap_size hw)))"

section \<open>Basic facts\<close>

lemma length_local_array: "length (local_array L hw) = L"
  by (simp add: local_array_def)

lemma memset_local_array: "memset (local_array L hw) NUL L = Some (replicate L NUL)"
  by (simp add: memset_def length_local_array)

lemma init_Command_local:
  "init_Command L (Ptr \<lparr>key = k, command = local_array L hw, argument = local_array L hw\<rparr>)
     = Some (Ptr (zero_Command L))"
  by (simp add: init_Command_def memset_local_array zero_Command_def)

lemma init_Command_Ptr:
  "length (command c) = L \<Longrightarrow> length (argument c) = L \<Longrightarrow>
   init_Command L (Ptr c) = Some (Ptr (zero_Command L))"
  by (simp add: init_Command_def memset_def zero_Command_def)

lemma process_cmd_mac_status: "process_cmd_mac hw c b = Some (r, b') \<Longrightarrow> r = 0"
  by (auto simp: process_cmd_mac_def Let_def split: bind_splits)
lemma process_cmd_id_status: "process_cmd_id c b = Some (r, b') \<Longrightarrow> r = 0"
  by (auto simp: process_cmd_id_def split: bind_splits)
lemma process_cmd_status_status: "process_cmd_status L hw c b = Some (r, b') \<Longrightarrow> r = 0"
  by (auto simp: process_cmd_status_def Let_def split: bind_splits)
lemma process_cmd_dec_status: "process_cmd_dec L c b = Some (r, b') \<Longrightarrow> r = 0"
  by (auto simp: process_cmd_dec_def Let_def split: bind_splits prod.splits)

lemma of_char_tolower:
  "(of_char (tolower c) :: nat) = (if 65 \<le> (of_char c :: nat) \<and> (of_char c :: nat) \<le> 90 then of_char c + 32 else of_char c)"
  by (simp add: tolower_def)

lemma char_eq_iff_nat: "c = d \<longleftrightarrow> (of_char c :: nat) = of_char d"
  by simp

lemma tolower_idem: "tolower (tolower c) = tolower c"
  by (simp add: char_eq_iff_nat of_char_tolower del: of_char_eq_iff)

lemma tolower_eq_space: "tolower c = CHR '' '' \<longleftrightarrow> c = CHR '' ''"
  by (simp add: char_eq_iff_nat of_char_tolower del: of_char_eq_iff)

lemma tolower_eq_tab: "tolower c = CHR 0x09 \<longleftrightarrow> c = CHR 0x09"
  by (simp add: char_eq_iff_nat of_char_tolower del: of_char_eq_iff)

lemma tolower_eq_NUL: "tolower c = NUL \<longleftrightarrow> c = NUL"
  by (simp add: char_eq_iff_nat of_char_tolower del: of_char_eq_iff)

lemma parse_loop_lower:
  "\<forall>c \<in> set v. \<not> is_ws c \<Longrightarrow>
   parse_loop (v @ r) d False cmd = parse_loop (map tolower v @ r) d False cmd"
  by (induction v arbitrary: d cmd)
     (simp_all add: tolower_idem tolower_eq_space tolower_eq_tab is_ws_def)

lemma parse_loop_argument:
  "d + length cs \<le> length (argument cmd) \<Longrightarrow>
   parse_loop cs d True cmd =
     Some (cmd\<lparr>argument := take d (argument cmd) @ cs @ drop (d + length cs) (argument cmd)\<rparr>)"
proof (induction cs arbitrary: d cmd)
  case Nil
  then show ?case by simp
next
  case (Cons c cs)
  from Cons.prems have d: "d < length (argument cmd)" by simp
  have "take (Suc d) ((argument cmd)[d := c]) = take d (argument cmd) @ [c]"
    using d by (simp add: take_Suc_conv_app_nth)
  moreover have "drop (Suc (d + length cs)) ((argument cmd)[d := c]) = drop (Suc (d + length cs)) (argument cmd)"
    by simp
  ultimately show ?case
    using Cons.prems d by (simp add: poke_def Cons.IH)
qed

lemma parse_loop_command:
  "\<forall>c \<in> set w. \<not> is_ws c \<Longrightarrow> d + length w \<le> length (command cmd) \<Longrightarrow>
   parse_loop (w @ r) d False cmd =
     parse_loop r (d + length w) False
       (cmd\<lparr>command := take d (command cmd) @ map tolower w @ drop (d + length w) (command cmd)\<rparr>)"
proof (induction w arbitrary: d cmd)
  case Nil
  then show ?case by simp
next
  case (Cons c w)
  from Cons.prems have d: "d < length (command cmd)" by simp
  from Cons.prems have c: "c \<noteq> CHR '' ''" "c \<noteq> CHR 0x09" by (auto simp: is_ws_def)
  have "take (Suc d) ((command cmd)[d := tolower c]) = take d (command cmd) @ [tolower c]"
    using d by (simp add: take_Suc_conv_app_nth)
  moreover have "drop (Suc (d + length w)) ((command cmd)[d := tolower c]) = drop (Suc (d + length w)) (command cmd)"
    by simp
  ultimately show ?case
    using Cons.prems d c by (simp add: poke_def Cons.IH)
qed

lemma length_pad: "length s \<le> L \<Longrightarrow> length (pad L s) = L"
  by (simp add: pad_def)

lemma c_str_pad: "NUL \<notin> set s \<Longrightarrow> length s < L \<Longrightarrow> c_str (pad L s @ t) = Some s"
proof -
  assume a: "NUL \<notin> set s" "length s < L"
  then obtain k where k: "L - length s = Suc k" by (cases "L - length s") auto
  have "\<forall>c \<in> set s. c \<noteq> NUL" using a by auto
  then have "takeWhile (\<lambda>c. c \<noteq> NUL) (s @ NUL # replicate k NUL @ t) = s"
    by simp
  then show ?thesis using a k by (simp add: c_str_def pad_def)
qed

lemma parse_loop_zero:
  assumes "length s < L"
  shows "parse_loop s 0 False (zero_Command L) =
     Some \<lparr>key = COMMAND_UNKNOWN,
           command = pad L (map tolower (takeWhile (\<lambda>c. \<not> is_ws c) s)),
           argument = pad L (drop 1 (dropWhile (\<lambda>c. \<not> is_ws c) s))\<rparr>"
proof -
  define w where "w = takeWhile (\<lambda>c. \<not> is_ws c) s"
  define r where "r = dropWhile (\<lambda>c. \<not> is_ws c) s"
  have s: "s = w @ r" by (simp add: w_def r_def)
  have w: "\<forall>c \<in> set w. \<not> is_ws c" by (auto simp: w_def dest: set_takeWhileD)
  have lw: "length w < L" "length r < L" using assms s by simp_all
  have 1: "parse_loop (w @ r) 0 False (zero_Command L) =
        parse_loop r (length w) False ((zero_Command L)\<lparr>command := pad L (map tolower w)\<rparr>)"
    using parse_loop_command [OF w, of 0 "zero_Command L" r] lw
    by (simp add: zero_Command_def pad_def)
  have goal: "parse_loop s 0 False (zero_Command L) =
     Some \<lparr>key = COMMAND_UNKNOWN, command = pad L (map tolower w), argument = pad L (drop 1 r)\<rparr>"
  proof (cases r)
    case Nil
    then show ?thesis using 1 by (simp add: s zero_Command_def pad_def)
  next
    case (Cons x r')
    then have "is_ws x" using hd_dropWhile [of "\<lambda>c. \<not> is_ws c" s] by (simp add: r_def)
    then have 2: "parse_loop r (length w) False c = parse_loop r' 0 True c" for c
      using Cons by (simp add: is_ws_def)
    have "length r' \<le> L" using lw Cons by simp
    then have 3: "parse_loop r' 0 True ((zero_Command L)\<lparr>command := pad L (map tolower w)\<rparr>)
        = Some \<lparr>key = COMMAND_UNKNOWN, command = pad L (map tolower w), argument = pad L r'\<rparr>"
      by (simp add: parse_loop_argument zero_Command_def pad_def)
    show ?thesis using 1 2 3 Cons by (simp add: s)
  qed
  then show ?thesis unfolding w_def r_def .
qed

lemma NUL_notin_lower: "NUL \<notin> set s \<Longrightarrow> NUL \<notin> set (map tolower s)"
  using tolower_eq_NUL by (metis (no_types, lifting) imageE list.set_map)

lemma parse_input_closed:
  assumes "strlen msg < L" "length (command c) = L" "length (argument c) = L"
  defines "s \<equiv> takeWhile (\<lambda>c. c \<noteq> NUL) msg"
  shows "parse_input L (Ptr msg) (Ptr c) =
     Some (0, Ptr \<lparr>key = token_of (map tolower (takeWhile (\<lambda>c. \<not> is_ws c) s)),
           command = pad L (map tolower (takeWhile (\<lambda>c. \<not> is_ws c) s)),
           argument = pad L (drop 1 (dropWhile (\<lambda>c. \<not> is_ws c) s))\<rparr>)"
proof -
  have t: "take (strlen msg) msg = s"
    by (simp add: strlen_def s_def takeWhile_eq_take [symmetric])
  have ls: "length s < L" using assms(1) by (simp add: strlen_def s_def)
  have n: "NUL \<notin> set s" by (auto simp: s_def dest: set_takeWhileD)
  define w where "w = takeWhile (\<lambda>c. \<not> is_ws c) s"
  have "set w \<subseteq> set s" by (auto simp: w_def dest: set_takeWhileD)
  then have nw: "NUL \<notin> set (map tolower w)" using n by (intro NUL_notin_lower) auto
  have "length w \<le> length s" by (simp add: w_def length_takeWhile_le)
  then have lw: "length (map tolower w) < L" using ls by simp
  have cs: "c_str (pad L (map tolower w)) = Some (map tolower w)"
    using c_str_pad [OF nw lw, of "[]"] by simp
  show ?thesis
    using assms(1) ls cs
    by (simp add: parse_input_def init_Command_Ptr assms(2,3) deref_def t parse_loop_zero
        w_def [symmetric] token_of_def)
qed

lemma digit_char_not_NUL: "d < 10 \<Longrightarrow> digit_char d \<noteq> NUL"
proof -
  assume "d < 10"
  then have "d \<in> {0,1,2,3,4,5,6,7,8,9}" by auto
  then show ?thesis by (auto simp: digit_char_def)
qed

lemma NUL_notin_dec_str: "NUL \<notin> set (dec_str n)"
proof (induction n rule: dec_str.induct)
  case (1 n)
  show ?case
  proof (cases "n < 10")
    case True
    then show ?thesis using digit_char_not_NUL [of n] by (subst dec_str.simps) auto
  next
    case False
    have "n mod 10 < 10" by simp
    then have "digit_char (n mod 10) \<noteq> NUL" by (rule digit_char_not_NUL)
    with False 1 show ?thesis by (subst dec_str.simps) auto
  qed
qed

lemma length_dec_str: "n < 10 ^ k \<Longrightarrow> 0 < k \<Longrightarrow> length (dec_str n) \<le> k"
proof (induction n arbitrary: k rule: dec_str.induct)
  case (1 n)
  show ?case
  proof (cases "n < 10")
    case True
    then show ?thesis using 1(3) by (subst dec_str.simps) simp
  next
    case False
    with 1(2) have "1 < k" by (cases k; cases "k - 1") auto
    then obtain j where k: "k = Suc j" "0 < j" by (cases k) auto
    with 1(2) have "n div 10 < 10 ^ j" by (simp add: less_mult_imp_div_less mult.commute)
    with 1(1) False k have "length (dec_str (n div 10)) \<le> j" by simp
    with False k show ?thesis by (subst dec_str.simps) simp
  qed
qed

lemma takeWhile_no_NUL: "NUL \<notin> set t \<Longrightarrow> takeWhile (\<lambda>c. c \<noteq> NUL) t = t"
  by (induction t) auto

lemma strcpy_zero:
  "NUL \<notin> set t \<Longrightarrow> length t < L \<Longrightarrow> strcpy (replicate L NUL) t = Some (pad L t)"
proof -
  assume a: "NUL \<notin> set t" "length t < L"
  obtain k where "L - length t = Suc k" using a by (cases "L - length t") auto
  moreover then have "L - Suc (length t) = k" by simp
  ultimately show ?thesis using a
    by (simp add: strcpy_def pad_def Let_def takeWhile_no_NUL)
qed

lemma snprintf_zero:
  "length t < L \<Longrightarrow> snprintf (replicate L NUL) L t = Some (pad L t)"
proof -
  assume a: "length t < L"
  obtain k where "L - length t = Suc k" using a by (cases "L - length t") auto
  moreover then have "L - Suc (length t) = k" by simp
  ultimately show ?thesis using a
    by (simp add: snprintf_def pad_def Let_def)
qed

lemma finish_pad:
  assumes "NUL \<notin> set t" "length t < L" "L \<le> length out"
  shows "poke (pad L t) (L - 1) NUL = Some (pad L t)"
    and "strncpy out (pad L t) L = Some (pad L t @ drop L out)"
proof -
  have len: "length (pad L t) = L" using assms by (simp add: pad_def)
  have "\<not> L - 1 < length t" "L - 1 - length t < L - length t" using assms by arith+
  then have "(pad L t) ! (L - 1) = NUL" by (simp add: pad_def nth_append)
  then have "(pad L t)[L - 1 := NUL] = pad L t" by (metis list_update_id)
  then show "poke (pad L t) (L - 1) NUL = Some (pad L t)" using assms len by (simp add: poke_def)
  have "c_str (pad L t @ []) = Some t" using assms by (intro c_str_pad)
  then have "takeWhile (\<lambda>c. c \<noteq> NUL) (pad L t) = t" by (simp add: c_str_def split: if_splits)
  then show "strncpy out (pad L t) L = Some (pad L t @ drop L out)"
    using assms by (simp add: strncpy_def pad_def)
qed

lemma strtoul_digits_bound:
  "acc < 2 ^ 32 \<Longrightarrow> strtoul_digits base cs acc any = (a, y, n) \<Longrightarrow> a < 2 ^ 32"
proof (induction cs arbitrary: acc any a y n)
  case Nil
  then show ?case by simp
next
  case (Cons c cs)
  from Cons.prems show ?case
    by (auto simp: Let_def split: option.splits if_splits prod.splits dest: Cons.IH [rotated])
qed

lemma strtoul_bound: "strtoul s base = (r, n) \<Longrightarrow> r < 2 ^ 32"
  by (auto simp: strtoul_def Let_def ULONG_MAX_def split: prod.splits if_splits
      dest: strtoul_digits_bound [rotated])

lemma process_cmd_dec_zero:
  assumes "NUL \<notin> set num" "length num < L" "15 \<le> L"
  shows "process_cmd_dec L \<lparr>key = k, command = c, argument = pad L num\<rparr> (replicate L NUL)
     = Some (0, pad L (dec_text num))"
proof -
  have cs: "c_str (pad L num) = Some num"
    using c_str_pad [OF assms(1,2), of "[]"] by simp
  obtain r n where rn: "strtoul (drop (dec_sub (dec_base num)) num) (dec_base num) = (r, n)"
    by (cases "strtoul (drop (dec_sub (dec_base num)) num) (dec_base num)")
  have e: "strcpy (replicate L NUL) ''ARGUMENT ERROR'' = Some (pad L ''ARGUMENT ERROR'')"
    using assms(3) by (intro strcpy_zero) simp_all
  have d: "snprintf (replicate L NUL) L (dec_str (unat w)) = Some (pad L (dec_str (unat w)))"
    if "w \<le> 0xFFFF" for w :: "32 word"
  proof -
    from that have "unat w \<le> 65535" by (simp add: word_le_nat_alt)
    then have "unat w < 10 ^ 5" by simp
    then have "length (dec_str (unat w)) \<le> 5" by (rule length_dec_str) simp
    with assms(3) show ?thesis by (intro snprintf_zero) simp
  qed
  show ?thesis
  proof (cases "(word_of_nat r :: 32 word) \<le> 0xFFFF")
    case True
    then have "\<not> (0xFFFF :: 32 word) < word_of_nat r" by (simp add: not_less)
    then show ?thesis
      by (simp add: process_cmd_dec_def cs rn dec_text_def Let_def e d [OF True])
  next
    case False
    then have "(0xFFFF :: 32 word) < word_of_nat r" by (simp add: not_le)
    then show ?thesis
      by (simp add: process_cmd_dec_def cs rn dec_text_def Let_def e)
  qed
qed

lemma strlen_append: "NUL \<notin> set v \<Longrightarrow> strlen (v @ r) = length v + strlen r"
  by (induction v) (auto simp: strlen_def)

lemma take_strlen_append: "NUL \<notin> set v \<Longrightarrow> take (strlen (v @ r)) (v @ r) = v @ take (strlen r) r"
  by (simp add: strlen_append)

lemma parse_input_lower:
  assumes "\<forall>c \<in> set v. \<not> is_ws c" "NUL \<notin> set v"
  shows "parse_input L (Ptr (v @ r)) p = parse_input L (Ptr (map tolower v @ r)) p"
proof -
  have n: "NUL \<notin> set (map tolower v)" using assms(2) by (rule NUL_notin_lower)
  have t1: "take (strlen (v @ r)) (v @ r) = v @ take (strlen r) r"
    by (rule take_strlen_append [OF assms(2)])
  have t2: "take (strlen (map tolower v @ r)) (map tolower v @ r) = map tolower v @ take (strlen r) r"
    by (rule take_strlen_append [OF n])
  have e1: "strlen (v @ r) = strlen (map tolower v @ r)"
    by (simp add: strlen_append [OF assms(2)] strlen_append [OF n])
  have e2: "parse_loop (take (strlen (map tolower v @ r)) (v @ r)) 0 False c
      = parse_loop (take (strlen (map tolower v @ r)) (map tolower v @ r)) 0 False c" for c
    unfolding t2 t1 [unfolded e1] by (rule parse_loop_lower [OF assms(1)])
  show ?thesis
    by (simp only: parse_input_def ptr.case Let_def e1 e2)
qed

lemma process_command_cong:
  "(\<And>p. parse_input L (Ptr m1) p = parse_input L (Ptr m2) p) \<Longrightarrow>
   process_command L hw (Ptr m1) out = process_command L hw (Ptr m2) out"
  by (simp add: process_command_def)

lemma is_ws_tolower: "is_ws (tolower c) \<longleftrightarrow> is_ws c"
  by (simp add: is_ws_def tolower_eq_space tolower_eq_tab)

lemma lower_not_ws:
  assumes "\<forall>c \<in> set (map tolower v). \<not> is_ws c"
  shows "\<forall>c \<in> set v. \<not> is_ws c"
proof
  fix c assume "c \<in> set v"
  then have "tolower c \<in> set (map tolower v)" by simp
  with assms have "\<not> is_ws (tolower c)" by blast
  then show "\<not> is_ws c" by (simp add: is_ws_tolower)
qed

lemma lower_not_NUL:
  assumes "NUL \<notin> set (map tolower v)"
  shows "NUL \<notin> set v"
proof
  assume "NUL \<in> set v"
  then have "tolower NUL \<in> tolower ` set v" by (rule imageI)
  moreover have "tolower NUL = NUL" by (simp add: tolower_eq_NUL)
  ultimately show False using assms by simp
qed

lemma takeWhile_not_ws:
  assumes "\<forall>c \<in> set w. \<not> is_ws c" "r = [] \<or> is_ws (hd r)"
  shows "takeWhile (\<lambda>c. \<not> is_ws c) (w @ r) = w"
  using assms by (cases r) (auto simp: takeWhile_append2)

lemma dropWhile_not_ws:
  assumes "\<forall>c \<in> set w. \<not> is_ws c" "r = [] \<or> is_ws (hd r)"
  shows "dropWhile (\<lambda>c. \<not> is_ws c) (w @ r) = r"
  using assms by (cases r) (auto simp: dropWhile_append2)

lemma mac_facts:
  "\<forall>c \<in> set ''mac''. \<not> is_ws c" "NUL \<notin> set ''mac''" "token_of ''mac'' = COMMAND_MAC"
  by (simp_all add: is_ws_def token_of_def)
lemma id_facts:
  "\<forall>c \<in> set ''id''. \<not> is_ws c" "NUL \<notin> set ''id''" "token_of ''id'' = COMMAND_ID"
  by (simp_all add: is_ws_def token_of_def)
lemma status_facts:
  "\<forall>c \<in> set ''status''. \<not> is_ws c" "NUL \<notin> set ''status''" "token_of ''status'' = COMMAND_STATUS"
  by (simp_all add: is_ws_def token_of_def)
lemma dec_facts:
  "\<forall>c \<in> set ''dec''. \<not> is_ws c" "NUL \<notin> set ''dec''" "token_of ''dec'' = COMMAND_DEC"
  by (simp_all add: is_ws_def token_of_def)

lemma known_words:
  assumes "w \<in> {''mac'', ''id'', ''status'', ''dec''}"
  shows "\<forall>c \<in> set w. \<not> is_ws c" "NUL \<notin> set w" "token_of w \<noteq> COMMAND_UNKNOWN"
  using assms mac_facts id_facts status_facts dec_facts by auto

lemma parse_input_known_word:
  assumes "\<forall>c \<in> set w. \<not> is_ws c" "NUL \<notin> set w" "rest = [] \<or> is_ws (hd rest)"
    "strlen (w @ rest) < L" "length (command c) = L" "length (argument c) = L"
  shows "parse_input L (Ptr (w @ rest)) (Ptr c) =
    Some (0, Ptr \<lparr>key = token_of (map tolower w), command = pad L (map tolower w),
       argument = pad L (drop 1 (takeWhile (\<lambda>c. c \<noteq> NUL) rest))\<rparr>)"
proof -
  have "\<forall>c \<in> set w. c \<noteq> NUL" using assms(2) by auto
  then have s: "takeWhile (\<lambda>c. c \<noteq> NUL) (w @ rest) = w @ takeWhile (\<lambda>c. c \<noteq> NUL) rest"
    by simp
  have r: "takeWhile (\<lambda>c. c \<noteq> NUL) rest = [] \<or> is_ws (hd (takeWhile (\<lambda>c. c \<noteq> NUL) rest))"
  proof (cases rest)
    case Nil
    then show ?thesis by simp
  next
    case (Cons x xs)
    with assms(3) have "is_ws x" by simp
    then have "x \<noteq> NUL" by (auto simp: is_ws_def)
    then show ?thesis using Cons \<open>is_ws x\<close> by simp
  qed
  show ?thesis
    using parse_input_closed [OF assms(4,5,6)]
    by (simp add: s takeWhile_not_ws [OF assms(1) r] dropWhile_not_ws [OF assms(1) r])
qed

lemma dec_text_cases:
  "dec_text num = ''ARGUMENT ERROR'' \<or> (\<exists>w :: 32 word. w \<le> 0xFFFF \<and> dec_text num = dec_str (unat w))"
  by (auto simp: dec_text_def Let_def not_less split: prod.splits)

lemma dec_text_props: "NUL \<notin> set (dec_text num)" "length (dec_text num) \<le> 14"
proof -
  have *: "NUL \<notin> set (dec_text num) \<and> length (dec_text num) \<le> 14"
    using dec_text_cases [of num]
  proof
    assume "dec_text num = ''ARGUMENT ERROR''"
    then show ?thesis by simp
  next
    assume "\<exists>w :: 32 word. w \<le> 0xFFFF \<and> dec_text num = dec_str (unat w)"
    then obtain w :: "32 word" where w: "w \<le> 0xFFFF" "dec_text num = dec_str (unat w)" by blast
    from w(1) have "unat w \<le> 65535" by (simp add: word_le_nat_alt)
    then have "unat w < 10 ^ 5" by simp
    then have "length (dec_str (unat w)) \<le> 5" by (rule length_dec_str) simp
    then show ?thesis using w(2) NUL_notin_dec_str by simp
  qed
  show "NUL \<notin> set (dec_text num)" "length (dec_text num) \<le> 14" using * by simp_all
qed

lemma process_command_dec:
  assumes "map tolower v = ''dec''" "rest = [] \<or> is_ws (hd rest)" "strlen (v @ rest) < L"
    "15 \<le> L" "L \<le> length out"
  defines "num \<equiv> drop 1 (takeWhile (\<lambda>c. c \<noteq> NUL) rest)"
  shows "process_command L hw (Ptr (v @ rest)) (Ptr out)
       = Some (0, Ptr (pad L (dec_text num) @ drop L out))"
proof -
  have ws: "\<forall>c \<in> set v. \<not> is_ws c" using dec_facts(1) assms(1) lower_not_ws by metis
  have nn: "NUL \<notin> set v" using dec_facts(2) assms(1) lower_not_NUL by metis
  have z: "length (command (zero_Command L)) = L" "length (argument (zero_Command L)) = L"
    by (simp_all add: zero_Command_def)
  have p: "parse_input L (Ptr (v @ rest)) (Ptr (zero_Command L)) =
    Some (0, Ptr \<lparr>key = COMMAND_DEC, command = pad L ''dec'', argument = pad L num\<rparr>)"
    using parse_input_known_word [OF ws nn assms(2,3) z] by (simp add: assms(1) dec_facts(3) num_def)
  have "set num \<subseteq> set (takeWhile (\<lambda>c. c \<noteq> NUL) rest)" unfolding num_def by (rule set_drop_subset)
  then have n1: "NUL \<notin> set num" by (auto dest: set_takeWhileD)
  have "length num \<le> length rest" by (simp add: num_def) (meson diff_le_self le_trans length_takeWhile_le)
  moreover have "strlen (v @ rest) = length v + strlen rest" using nn by (rule strlen_append)
  ultimately have n2: "length num < L" using assms(3) by (simp add: num_def strlen_def)
  have t: "length (dec_text num) < L" using dec_text_props(2) [of num] assms(4) by simp
  show ?thesis
    using finish_pad [OF dec_text_props(1) t assms(5)]
    by (simp add: process_command_def memset_local_array init_Command_local p deref_def
        process_cmd_dec_zero [OF n1 n2 assms(4)])
qed

lemma reply_pad:
  "NUL \<notin> set t \<Longrightarrow> length t < L \<Longrightarrow> reply (Some (st, Ptr (pad L t @ r))) = Some (st, t)"
  by (simp add: reply_def c_str_pad)

lemma reply_dec:
  assumes "map tolower v = ''dec''" "rest = [] \<or> is_ws (hd rest)" "strlen (v @ rest) < L"
    "15 \<le> L" "L \<le> length out"
  shows "reply (process_command L hw (Ptr (v @ rest)) (Ptr out))
       = Some (0, dec_text (drop 1 (takeWhile (\<lambda>c. c \<noteq> NUL) rest)))"
proof -
  have "length (dec_text (drop 1 (takeWhile (\<lambda>c. c \<noteq> NUL) rest))) < L"
    using dec_text_props(2) [of "drop 1 (takeWhile (\<lambda>c. c \<noteq> NUL) rest)"] assms(4) by simp
  then show ?thesis
    unfolding process_command_dec [OF assms]
    by (intro reply_pad dec_text_props(1))
qed

lemma strlen_no_NUL: "NUL \<notin> set s \<Longrightarrow> strlen s = length s"
  by (simp add: strlen_def takeWhile_no_NUL)

lemmas strtoul_eval = strtoul_def isspace_def char_at_def digit_val_def ULONG_MAX_def Let_def

lemma strtoul_examples:
  "strtoul ''10'' 16 = (16, 2)"
  "strtoul ''101'' 2 = (5, 3)"
  "strtoul ''10'' 8 = (8, 2)"
  "strtoul ''65535'' 10 = (65535, 5)"
  "strtoul ''65536'' 10 = (65536, 5)"
  "strtoul ''abc'' 10 = (0, 0)"
  "strtoul [] 10 = (0, 0)"
  "strtoul [] 16 = (0, 0)"
  "strtoul [] 2 = (0, 0)"
  by (simp_all add: strtoul_eval)

lemma dec_str_examples:
  "dec_str 0 = ''0''" "dec_str 5 = ''5''" "dec_str 8 = ''8''" "dec_str 16 = ''16''"
  "dec_str 42 = ''42''" "dec_str 65535 = ''65535''"
  by (simp_all add: dec_str.simps digit_char_def)

lemma dec_base_examples:
  "dec_base ''0x10'' = 16" "dec_base ''0b101'' = 2" "dec_base ''010'' = 8"
  "dec_base ''65535'' = 10" "dec_base ''65536'' = 10" "dec_base ''abc'' = 10"
  "dec_base [] = 10" "dec_base ''0x'' = 16" "dec_base ''0b'' = 2"
  by (simp_all add: dec_base_def char_at_def strlen_def)

lemma dec_sub_values: "dec_sub 16 = 2" "dec_sub 2 = 2" "dec_sub 8 = 1" "dec_sub 10 = 0"
  by (simp_all add: dec_sub_def)

lemma dec_text_examples:
  "dec_text ''0x10'' = ''16''"
  "dec_text ''0b101'' = ''5''"
  "dec_text ''010'' = ''8''"
  "dec_text ''65535'' = ''65535''"
  "dec_text ''65536'' = ''ARGUMENT ERROR''"
  "dec_text ''abc'' = ''ARGUMENT ERROR''"
  "dec_text [] = ''ARGUMENT ERROR''"
  by (simp_all add: dec_text_def dec_base_examples dec_sub_values strtoul_examples
      dec_str_examples char_at_def)

lemma dec_text_empty_after_prefix:
  "dec_text ''0x'' = ''0''" "dec_text ''0b'' = ''0''"
  by (simp_all add: dec_text_def dec_base_examples dec_sub_values strtoul_examples
      dec_str_examples char_at_def)

lemma foldl_digits_mono: "acc \<le> foldl (\<lambda>a c. a * 10 + (of_char c - 48)) (acc::nat) ds"
proof (induction ds arbitrary: acc)
  case Nil
  then show ?case by simp
next
  case (Cons c ds)
  have "acc \<le> acc * 10 + (of_char c - 48)" by simp
  also have "\<dots> \<le> foldl (\<lambda>a c. a * 10 + (of_char c - 48)) (acc * 10 + (of_char c - 48)) ds"
    by (rule Cons.IH)
  finally show ?case by simp
qed

lemma digit_val_digit: "is_digit c \<Longrightarrow> digit_val c = Some (of_char c - 48) \<and> (of_char c :: nat) - 48 < 10"
  by (auto simp: is_digit_def digit_val_def Let_def)

lemma strtoul_digits_decimal:
  assumes "\<forall>c \<in> set ds. is_digit c" "foldl (\<lambda>a c. a * 10 + (of_char c - 48)) acc ds \<le> 65535" "0 \<le> any"
  shows "strtoul_digits 10 ds acc any =
     (foldl (\<lambda>a c. a * 10 + (of_char c - 48)) acc ds, if ds = [] then any else 1, length ds)"
  using assms
proof (induction ds arbitrary: acc any)
  case Nil
  then show ?case by simp
next
  case (Cons c ds)
  let ?d = "(of_char c :: nat) - 48"
  from Cons.prems(1) have dv: "digit_val c = Some ?d" "?d < 10"
    using digit_val_digit [of c] by simp_all
  have "acc * 10 + ?d \<le> foldl (\<lambda>a c. a * 10 + (of_char c - 48)) (acc * 10 + ?d) ds"
    by (rule foldl_digits_mono)
  with Cons.prems(2) have b: "acc * 10 + ?d \<le> 65535" by simp
  then have c1: "\<not> acc > ULONG_MAX div 10" "acc \<noteq> ULONG_MAX div 10"
    by (simp_all add: ULONG_MAX_def)
  have m: "(acc * 10 + ?d) mod 4294967296 = acc * 10 + ?d" using b by simp
  have ih: "strtoul_digits 10 ds (acc * 10 + ?d) 1 =
     (foldl (\<lambda>a c. a * 10 + (of_char c - 48)) (acc * 10 + ?d) ds, if ds = [] then 1 else 1, length ds)"
    using Cons.prems by (intro Cons.IH) simp_all
  show ?case
    using dv c1 Cons.prems(3) by (simp add: m ih del: One_nat_def)
qed

lemma is_ws_isspace: "is_ws c \<Longrightarrow> isspace c"
  by (auto simp: is_ws_def isspace_def)

lemma is_digit_facts:
  assumes "is_digit c"
  shows "\<not> isspace c" "c \<noteq> CHR ''-''" "c \<noteq> CHR ''+''" "c \<noteq> NUL" "\<not> is_ws c"
  using assms by (auto simp: is_digit_def isspace_def is_ws_def)

lemma strtoul_lenient:
  assumes "\<forall>c \<in> set ws. is_ws c" "sg = [] \<or> sg = ''+''" "ds \<noteq> []" "\<forall>c \<in> set ds. is_digit c"
    "dec_value ds \<le> 65535"
  shows "strtoul (ws @ sg @ ds) 10 = (dec_value ds, length (ws @ sg @ ds))"
proof -
  obtain d ds' where ds: "ds = d # ds'" using assms(3) by (cases ds) auto
  then have d: "is_digit d" using assms(4) by simp
  have hd: "\<not> isspace (hd (sg @ ds))" using assms(2) ds is_digit_facts(1) [OF d]
    by (auto simp: isspace_def)
  have "\<forall>c \<in> set ws. isspace c" using assms(1) is_ws_isspace by blast
  then have tw: "takeWhile isspace (ws @ sg @ ds) = ws"
    using hd assms(2) ds by (cases "sg @ ds") (auto simp: takeWhile_append2)
  have sd: "strtoul_digits 10 ds 0 0 = (dec_value ds, 1, length ds)"
    using strtoul_digits_decimal [OF assms(4), of 0 0] assms(5,3) by (simp add: dec_value_def)
  have s1: "drop (length ws) (ws @ sg @ ds) = sg @ ds" by simp
  have c0: "char_at ds 0 = d" using ds by (simp add: char_at_def)
  show ?thesis
    using assms(2)
  proof
    assume "sg = []"
    then show ?thesis
      unfolding strtoul_def tw s1
      using is_digit_facts [OF d] sd c0
      by (simp add: Let_def)
  next
    assume "sg = ''+''"
    then show ?thesis
      unfolding strtoul_def tw s1
      using sd
      by (simp add: char_at_def Let_def)
  qed
qed

lemma dec_text_lenient:
  assumes "\<forall>c \<in> set ws. is_ws c" "sg = [] \<or> sg = ''+''" "ds \<noteq> []" "\<forall>c \<in> set ds. is_digit c"
    "dec_value ds \<le> 65535" "dec_base (ws @ sg @ ds) = 10"
  shows "dec_text (ws @ sg @ ds) = dec_str (dec_value ds)"
proof -
  have u: "unat (word_of_nat (dec_value ds) :: 32 word) = dec_value ds"
    using assms(5) by (simp add: unat_of_nat)
  then have "unat (word_of_nat (dec_value ds) :: 32 word) \<le> unat (0xFFFF :: 32 word)"
    using assms(5) by simp
  then have le: "\<not> (0xFFFF :: 32 word) < word_of_nat (dec_value ds)"
    by (simp add: word_less_nat_alt)
  show ?thesis
    using strtoul_lenient [OF assms(1-5)] assms(6) le u assms(3)
    by (simp add: dec_text_def dec_sub_def char_at_def Let_def)
qed

lemma lenient_no_NUL:
  assumes "\<forall>c \<in> set ws. is_ws c" "sg = [] \<or> sg = ''+''" "\<forall>c \<in> set ds. is_digit c"
  shows "NUL \<notin> set (ws @ sg @ ds)"
proof -
  have "NUL \<notin> set ws"
  proof
    assume "NUL \<in> set ws"
    with assms(1) have "is_ws NUL" by blast
    then show False by (simp add: is_ws_def)
  qed
  moreover have "NUL \<notin> set sg" using assms(2) by auto
  moreover have "NUL \<notin> set ds"
  proof
    assume "NUL \<in> set ds"
    with assms(3) have "is_digit NUL" by blast
    then show False by (simp add: is_digit_def)
  qed
  ultimately show ?thesis by simp
qed

lemma hi_nibble: "unat (drop_bit 4 ((b::8 word) AND 0xF0)) = unat b div 16"
proof -
  have e: "(0xF0 :: 8 word) = push_bit 4 (mask 4)" by (simp add: mask_eq_exp_minus_1)
  have "drop_bit 4 (b AND 0xF0) = drop_bit 4 b"
    unfolding e by (rule bit_word_eqI) (auto simp add: bit_simps dest: bit_imp_le_length)
  then show ?thesis by (simp add: unat_drop_bit_eq drop_bit_eq_div unat_div)
qed

lemma lo_nibble: "unat ((b::8 word) AND 0x0F) = unat b mod 16"
proof -
  have e: "(0x0F :: 8 word) = mask 4" by (simp add: mask_eq_exp_minus_1)
  have "b AND 0x0F = take_bit 4 b"
    unfolding e by (simp add: take_bit_eq_mask)
  then show ?thesis by (simp add: unsigned_take_bit_eq take_bit_eq_mod unat_mod)
qed

lemma peek_hexmap: "k < 16 \<Longrightarrow> peek hexmap k = Some (hexmap ! k)"
  by (simp add: peek_def hexmap_def)

lemma hi_lt: "unat (b::8 word) div 16 < 16"
proof -
  have "unat b < 256" using unsigned_less [of b] by simp
  then show ?thesis by simp
qed

lemma poke_overlay:
  assumes "n = off + length t" "n < length out"
  shows "poke (overlay out off t) n c = Some (overlay out off (t @ [c]))"
proof -
  have l: "length (take off out @ t) = n" using assms by simp
  have d: "drop n out = out ! n # drop (Suc n) out" using assms(2) by (simp add: Cons_nth_drop_Suc)
  have s: "overlay out off t = (take off out @ t) @ out ! n # drop (Suc n) out"
    using assms(1) d by (simp add: overlay_def)
  have "(overlay out off t)[n := c] = (take off out @ t) @ c # drop (Suc n) out"
    unfolding s using l list_update_length [of "take off out @ t" "out ! n" "drop (Suc n) out" c] by simp
  moreover have "length (overlay out off t) = length out" using assms by (simp add: overlay_def)
  ultimately show ?thesis using assms by (simp add: poke_def overlay_def)
qed

lemma length_hex2: "length (hex2 b) = 2"
  by (simp add: hex2_def)

lemma mac_loop_step:
  assumes "i < 5" "i < length mac" "off + length T + 3 \<le> length out"
  shows "mac_to_string_loop mac off i (length T) (overlay out off T) =
     mac_to_string_loop mac off (i + 1) (length T + 3) (overlay out off (T @ hex2 (mac ! i) @ '':''))"
proof -
  let ?b = "mac ! i"
  let ?hi = "hexmap ! (unat ?b div 16)" and ?lo = "hexmap ! (unat ?b mod 16)"
  have p1: "poke (overlay out off T) (off + length T) ?hi = Some (overlay out off (T @ [?hi]))"
    using assms(3) by (intro poke_overlay) simp_all
  have p2: "poke (overlay out off (T @ [?hi])) (off + length T + 1) ?lo = Some (overlay out off ((T @ [?hi]) @ [?lo]))"
    using assms(3) by (intro poke_overlay) simp_all
  have p3: "poke (overlay out off ((T @ [?hi]) @ [?lo])) (off + length T + 2) (CHR '':'')
      = Some (overlay out off (((T @ [?hi]) @ [?lo]) @ '':''))"
    using assms(3) by (intro poke_overlay) simp_all
  show ?thesis
    apply (subst mac_to_string_loop.simps)
    apply (simp only: hi_nibble lo_nibble)
    using assms(1,2) p1 p2 p3
    apply (simp add: peek_def [of mac] peek_hexmap hi_lt hex2_def)
    done
qed

lemma mac_loop_last:
  assumes "5 < length mac" "off + length T + 2 \<le> length out"
  shows "mac_to_string_loop mac off 5 (length T) (overlay out off T) =
     Some (overlay out off (T @ hex2 (mac ! 5)))"
proof -
  let ?b = "mac ! 5"
  let ?hi = "hexmap ! (unat ?b div 16)" and ?lo = "hexmap ! (unat ?b mod 16)"
  have p1: "poke (overlay out off T) (off + length T) ?hi = Some (overlay out off (T @ [?hi]))"
    using assms(2) by (intro poke_overlay) simp_all
  have p2: "poke (overlay out off (T @ [?hi])) (off + length T + 1) ?lo = Some (overlay out off ((T @ [?hi]) @ [?lo]))"
    using assms(2) by (intro poke_overlay) simp_all
  have e: "mac_to_string_loop mac off 6 a b = Some b" for a b
    by (subst mac_to_string_loop.simps) simp
  show ?thesis
    apply (subst mac_to_string_loop.simps)
    apply (simp only: hi_nibble lo_nibble)
    using assms(1) p1 p2
    apply (simp add: peek_def [of mac] peek_hexmap hi_lt hex2_def e)
    done
qed

lemma overlay_Nil: "overlay out off [] = out"
  by (simp add: overlay_def)

lemma length6: "length xs = 6 \<Longrightarrow> \<exists>a b c d e f. xs = [a, b, c, d, e, f]"
  by (auto simp add: numeral_eq_Suc length_Suc_conv)

lemma mac_to_string_loop_closed:
  assumes "length mac = 6" "off + 17 \<le> length out"
  shows "mac_to_string_loop mac off 0 0 out = Some (overlay out off (mac_text mac))"
proof -
  obtain a b c d e f where m: "mac = [a, b, c, d, e, f]" using length6 [OF assms(1)] by blast
  define T1 where "T1 = hex2 a @ '':''"
  define T2 where "T2 = T1 @ hex2 b @ '':''"
  define T3 where "T3 = T2 @ hex2 c @ '':''"
  define T4 where "T4 = T3 @ hex2 d @ '':''"
  define T5 where "T5 = T4 @ hex2 e @ '':''"
  have l: "length T1 = 3" "length T2 = 6" "length T3 = 9" "length T4 = 12" "length T5 = 15"
    by (simp_all add: T1_def T2_def T3_def T4_def T5_def length_hex2)
  have s0: "mac_to_string_loop mac off 0 0 out = mac_to_string_loop mac off 1 3 (overlay out off T1)"
    using mac_loop_step [of 0 mac off "[]" out] assms by (simp add: overlay_Nil m T1_def)
  have s1: "mac_to_string_loop mac off 1 3 (overlay out off T1) = mac_to_string_loop mac off 2 6 (overlay out off T2)"
    using mac_loop_step [of 1 mac off T1 out] assms l
    by (simp add: m T2_def numeral_2_eq_2 [symmetric])
  have s2: "mac_to_string_loop mac off 2 6 (overlay out off T2) = mac_to_string_loop mac off 3 9 (overlay out off T3)"
    using mac_loop_step [of 2 mac off T2 out] assms l by (simp add: m T3_def)
  have s3: "mac_to_string_loop mac off 3 9 (overlay out off T3) = mac_to_string_loop mac off 4 12 (overlay out off T4)"
    using mac_loop_step [of 3 mac off T3 out] assms l by (simp add: m T4_def)
  have s4: "mac_to_string_loop mac off 4 12 (overlay out off T4) = mac_to_string_loop mac off 5 15 (overlay out off T5)"
    using mac_loop_step [of 4 mac off T4 out] assms l by (simp add: m T5_def)
  have s5: "mac_to_string_loop mac off 5 15 (overlay out off T5) = Some (overlay out off (T5 @ hex2 f))"
    using mac_loop_last [of mac off T5 out] assms l by (simp add: m)
  have t: "T5 @ hex2 f = mac_text mac"
    by (simp add: m mac_text_def T1_def T2_def T3_def T4_def T5_def)
  show ?thesis
    unfolding s0 s1 s2 s3 s4 s5 t ..
qed

lemma hexmap_chars:
  assumes "k < 16"
  shows "hexmap ! k \<noteq> CHR '':''" "hexmap ! k \<noteq> NUL"
proof -
  from assms have "k = 0 \<or> k = 1 \<or> k = 2 \<or> k = 3 \<or> k = 4 \<or> k = 5 \<or> k = 6 \<or> k = 7
      \<or> k = 8 \<or> k = 9 \<or> k = 10 \<or> k = 11 \<or> k = 12 \<or> k = 13 \<or> k = 14 \<or> k = 15"
    by arith
  then show "hexmap ! k \<noteq> CHR '':''" "hexmap ! k \<noteq> NUL"
    by (auto simp: hexmap_def)
qed

lemma hex2_chars: "CHR '':'' \<notin> set (hex2 b)" "NUL \<notin> set (hex2 b)"
  using hexmap_chars [of "unat b div 16"] hexmap_chars [of "unat b mod 16"] hi_lt [of b]
  by (auto simp: hex2_def)

lemma mac_text_props:
  assumes "length mac = 6"
  shows "length (mac_text mac) = 17" "length (filter (\<lambda>c. c = CHR '':'') (mac_text mac)) = 5"
    "NUL \<notin> set (mac_text mac)"
    "mac_text mac = hex2 (mac ! 0) @ '':'' @ hex2 (mac ! 1) @ '':'' @ hex2 (mac ! 2) @ '':''
        @ hex2 (mac ! 3) @ '':'' @ hex2 (mac ! 4) @ '':'' @ hex2 (mac ! 5)"
proof -
  obtain a b c d e f where m: "mac = [a, b, c, d, e, f]" using length6 [OF assms(1)] by blast
  have f: "filter (\<lambda>c. c = CHR '':'') (hex2 x) = []" for x
    using hex2_chars(1) [of x] by (auto simp: filter_empty_conv)
  show "length (mac_text mac) = 17" by (simp add: m mac_text_def length_hex2)
  show "length (filter (\<lambda>c. c = CHR '':'') (mac_text mac)) = 5" by (simp add: m mac_text_def f)
  show "NUL \<notin> set (mac_text mac)" using hex2_chars(2) by (simp add: m mac_text_def)
  show "mac_text mac = hex2 (mac ! 0) @ '':'' @ hex2 (mac ! 1) @ '':'' @ hex2 (mac ! 2) @ '':''
        @ hex2 (mac ! 3) @ '':'' @ hex2 (mac ! 4) @ '':'' @ hex2 (mac ! 5)"
    by (simp add: m mac_text_def)
qed

lemma mac_text_example:
  "mac_text [0x01, 0x02, 0xAB, 0xCD, 0xEF, 0x00] = ''01:02:AB:CD:EF:00''"
  by (simp add: mac_text_def hex2_def hexmap_def)

lemma mac_to_string_closed:
  assumes "length mac = 6" "off + 17 \<le> length out"
  shows "mac_to_string (Ptr mac) (Ptr out) off = Some (Ptr (overlay out off (mac_text mac)))"
  by (simp add: mac_to_string_def mac_to_string_loop_closed [OF assms])

lemma length_overlay: "off + length t \<le> length out \<Longrightarrow> length (overlay out off t) = length out"
  by (simp add: overlay_def)

lemma overlay_window: "off + length t \<le> length out \<Longrightarrow> take (length t) (drop off (overlay out off t)) = t"
  by (simp add: overlay_def)

lemma overlay_frame:
  assumes "off + length t \<le> length out" "i < length out" "i < off \<or> off + length t \<le> i"
  shows "overlay out off t ! i = out ! i"
proof -
  from assms(3) show ?thesis
  proof
    assume "i < off"
    then show ?thesis using assms(1) by (simp add: overlay_def nth_append)
  next
    assume a: "off + length t \<le> i"
    then have "\<not> i < off" "\<not> i - off < length t" by simp_all
    moreover have "off + length t + (i - off - length t) = i" using a by simp
    ultimately show ?thesis using assms(1,2) by (simp add: overlay_def nth_append)
  qed
qed

lemma overlay_no_NUL: "NUL \<notin> set out \<Longrightarrow> NUL \<notin> set t \<Longrightarrow> NUL \<notin> set (overlay out off t)"
  by (auto simp: overlay_def dest: in_set_takeD in_set_dropD)

lemma length_local_mac: "length (map (esp_read_mac hw) [0..<6]) = 6"
  by simp

lemma process_cmd_mac_closed:
  assumes "21 \<le> length buf"
  shows "process_cmd_mac hw cmd buf =
     Some (0, ''MAC '' @ mac_text (map (esp_read_mac hw) [0..<6]) @ drop 21 buf)"
proof -
  let ?m = "map (esp_read_mac hw) [0..<6]"
  let ?b1 = "''MAC '' @ NUL # drop 5 buf"
  have s: "strcpy buf ''MAC '' = Some ?b1" using assms by (simp add: strcpy_def eval_nat_numeral)
  have l: "strlen ''MAC '' = 4" by (simp add: strlen_def)
  have lm: "length ?m = 6" by simp
  have lt: "length (mac_text ?m) = 17" using lm by (rule mac_text_props(1))
  have "4 + 17 \<le> length ?b1" using assms by simp
  then have m: "mac_to_string (Ptr ?m) (Ptr ?b1) 4 = Some (Ptr (overlay ?b1 4 (mac_text ?m)))"
    using lm by (intro mac_to_string_closed)
  have o: "overlay ?b1 4 (mac_text ?m) = ''MAC '' @ mac_text ?m @ drop 21 buf"
    using assms by (simp add: overlay_def lt)
  show ?thesis
    unfolding process_cmd_mac_def Let_def s l using m o by (simp add: deref_def)
qed

lemma mac_response_props:
  "NUL \<notin> set (''MAC '' @ mac_text (map (esp_read_mac hw) [0..<6]))"
  "length (''MAC '' @ mac_text (map (esp_read_mac hw) [0..<6])) = 21"
  using mac_text_props(1,3) [OF length_local_mac, of hw] by simp_all

lemma process_command_mac:
  assumes "22 \<le> L" "L \<le> length out"
  shows "reply (process_command L hw (Ptr ''mac'') (Ptr out))
     = Some (0, ''MAC '' @ mac_text (map (esp_read_mac hw) [0..<6]))"
proof -
  let ?t = "''MAC '' @ mac_text (map (esp_read_mac hw) [0..<6])"
  have z: "length (command (zero_Command L)) = L" "length (argument (zero_Command L)) = L"
    by (simp_all add: zero_Command_def)
  have sl: "strlen (''mac'' @ []) < L" using assms(1) by (simp add: strlen_def)
  have lo: "map tolower ''mac'' = ''mac''" by code_simp
  have p: "parse_input L (Ptr ''mac'') (Ptr (zero_Command L)) =
    Some (0, Ptr \<lparr>key = COMMAND_MAC, command = pad L ''mac'', argument = pad L []\<rparr>)"
    using parse_input_known_word [OF mac_facts(1,2) _ sl z, unfolded lo] by (simp add: mac_facts(3))
  have t: "NUL \<notin> set ?t" "length ?t < L" using mac_response_props [of hw] assms(1) by simp_all
  have "21 \<le> length (replicate L NUL)" using assms(1) by simp
  then have h: "process_cmd_mac hw c (replicate L NUL) = Some (0, pad L ?t)" for c
    using process_cmd_mac_closed [of "replicate L NUL" hw c] mac_response_props(2) [of hw] assms(1)
    by (simp add: pad_def)
  have "process_command L hw (Ptr ''mac'') (Ptr out) = Some (0, Ptr (pad L ?t @ drop L out))"
    using finish_pad [OF t assms(2)]
    by (simp add: process_command_def memset_local_array init_Command_local p deref_def h)
  then show ?thesis using reply_pad [OF t] by simp
qed

lemma process_cmd_id_zero:
  "15 \<le> L \<Longrightarrow> process_cmd_id c (replicate L NUL) = Some (0, pad L ''ID: otf2@hi.is'')"
  by (simp add: process_cmd_id_def strcpy_zero)

lemma snprintf_length:
  "0 < n \<Longrightarrow> n \<le> length buf \<Longrightarrow> \<exists>b. snprintf buf n txt = Some b \<and> length b = length buf"
  by (auto simp: snprintf_def Let_def)

lemma process_cmd_status_zero:
  assumes "0 < L"
  shows "\<exists>b. process_cmd_status L hw c (replicate L NUL) = Some (0, b) \<and> length b = L"
proof -
  have "0 < L" "L \<le> length (replicate L NUL)" using assms by simp_all
  from snprintf_length [OF this] show ?thesis
    unfolding process_cmd_status_def Let_def by (metis bind.bind_lunit length_replicate)
qed

lemma process_cmd_mac_zero:
  assumes "21 \<le> L"
  shows "\<exists>b. process_cmd_mac hw c (replicate L NUL) = Some (0, b) \<and> length b = L"
proof -
  have "21 \<le> length (replicate L NUL)" using assms by simp
  then have "process_cmd_mac hw c (replicate L NUL)
     = Some (0, ''MAC '' @ mac_text (map (esp_read_mac hw) [0..<6]) @ drop 21 (replicate L NUL))"
    by (rule process_cmd_mac_closed)
  moreover have "length (''MAC '' @ mac_text (map (esp_read_mac hw) [0..<6]) @ drop 21 (replicate L NUL)) = L"
    using mac_response_props(2) [of hw] assms by simp
  ultimately show ?thesis by blast
qed

lemma finish_defined:
  assumes "length buf = L" "0 < L" "L \<le> length out"
  shows "\<exists>out1. (poke buf (L - 1) NUL \<bind> (\<lambda>buf1. strncpy out buf1 L \<bind> (\<lambda>out1. Some (0::int, Ptr out1))))
           = Some (0, Ptr out1)"
  using assms by (simp add: poke_def strncpy_def)

lemma process_command_defined:
  assumes "22 \<le> L" "L \<le> length out"
  shows "\<exists>st out'. process_command L hw (Ptr msg) (Ptr out) = Some (st, Ptr out')
           \<and> (st = 0 \<or> st = 1 \<and> out' = out)"
proof (cases "strlen msg < L")
  case False
  then have "process_command L hw (Ptr msg) (Ptr out) = Some (1, Ptr out)"
    by (simp add: process_command_def memset_local_array init_Command_local parse_input_def
        deref_def zero_Command_def)
  then show ?thesis by simp
next
  case True
  define s where "s = takeWhile (\<lambda>c. c \<noteq> NUL) msg"
  define w where "w = map tolower (takeWhile (\<lambda>c. \<not> is_ws c) s)"
  define num where "num = drop 1 (dropWhile (\<lambda>c. \<not> is_ws c) s)"
  define cmd where "cmd = \<lparr>key = token_of w, command = pad L w, argument = pad L num\<rparr>"
  have z: "length (command (zero_Command L)) = L" "length (argument (zero_Command L)) = L"
    by (simp_all add: zero_Command_def)
  have p: "parse_input L (Ptr msg) (Ptr (zero_Command L)) = Some (0, Ptr cmd)"
    using parse_input_closed [OF True z] by (simp add: cmd_def w_def num_def s_def)
  have "set num \<subseteq> set s" unfolding num_def
    by (meson set_drop_subset set_dropWhileD subsetI subset_trans)
  moreover have "NUL \<notin> set s" by (auto simp: s_def dest: set_takeWhileD)
  ultimately have n1: "NUL \<notin> set num" by blast
  have "length num \<le> length s" by (simp add: num_def) (meson diff_le_self le_trans length_dropWhile_le)
  then have n2: "length num < L" using True by (simp add: strlen_def s_def)
  have L: "0 < L" "15 \<le> L" "21 \<le> L" using assms(1) by simp_all
  have h: "\<exists>b. (case key cmd of
               COMMAND_MAC \<Rightarrow> process_cmd_mac hw cmd (replicate L NUL)
             | COMMAND_ID \<Rightarrow> process_cmd_id cmd (replicate L NUL)
             | COMMAND_STATUS \<Rightarrow> process_cmd_status L hw cmd (replicate L NUL)
             | COMMAND_DEC \<Rightarrow> process_cmd_dec L cmd (replicate L NUL)
             | COMMAND_UNKNOWN \<Rightarrow> Some (1, replicate L NUL)) = Some (if key cmd = COMMAND_UNKNOWN then 1 else 0, b)
            \<and> length b = L"
  proof (cases "key cmd")
    case COMMAND_UNKNOWN
    then show ?thesis by simp
  next
    case COMMAND_MAC
    then show ?thesis using process_cmd_mac_zero [OF L(3), of hw cmd] by simp
  next
    case COMMAND_ID
    then show ?thesis using process_cmd_id_zero [OF L(2), of cmd] L(2) by (simp add: pad_def)
  next
    case COMMAND_STATUS
    then show ?thesis using process_cmd_status_zero [OF L(1), of hw cmd] by simp
  next
    case COMMAND_DEC
    have "length (dec_text num) < L" using dec_text_props(2) [of num] L(2) by simp
    then have "length (pad L (dec_text num)) = L" by (simp add: pad_def)
    then show ?thesis
      using COMMAND_DEC process_cmd_dec_zero [OF n1 n2 L(2), of "token_of w" "pad L w"]
      by (simp add: cmd_def)
  qed
  then obtain b where b: "(case key cmd of
               COMMAND_MAC \<Rightarrow> process_cmd_mac hw cmd (replicate L NUL)
             | COMMAND_ID \<Rightarrow> process_cmd_id cmd (replicate L NUL)
             | COMMAND_STATUS \<Rightarrow> process_cmd_status L hw cmd (replicate L NUL)
             | COMMAND_DEC \<Rightarrow> process_cmd_dec L cmd (replicate L NUL)
             | COMMAND_UNKNOWN \<Rightarrow> Some (1, replicate L NUL)) = Some (if key cmd = COMMAND_UNKNOWN then 1 else 0, b)"
      "length b = L" by blast
  from finish_defined [OF b(2) L(1) assms(2)] obtain out1 where
    f: "(poke b (L - 1) NUL \<bind> (\<lambda>buf1. strncpy out buf1 L \<bind> (\<lambda>out1. Some (0::int, Ptr out1))))
           = Some (0, Ptr out1)" by blast
  have "process_command L hw (Ptr msg) (Ptr out) =
      (if key cmd = COMMAND_UNKNOWN then Some (1, Ptr out) else Some (0, Ptr out1))"
    using f by (simp add: process_command_def memset_local_array init_Command_local p deref_def b(1))
  then show ?thesis by auto
qed

lemma dec_base_lenient:
  assumes "\<forall>c \<in> set ws. is_ws c" "sg = [] \<or> sg = ''+''"
    "ws \<noteq> [] \<or> sg \<noteq> [] \<or> dec_base ds = 10"
  shows "dec_base (ws @ sg @ ds) = 10"
proof (cases ws)
  case (Cons c cs)
  with assms(1) have "is_ws c" by simp
  then have "c \<noteq> CHR ''0''" by (auto simp: is_ws_def)
  then show ?thesis using Cons by (simp add: dec_base_def char_at_def)
next
  case Nil
  show ?thesis
  proof (cases "sg = []")
    case True
    then show ?thesis using Nil assms(3) by simp
  next
    case False
    then have "sg = ''+''" using assms(2) by simp
    then show ?thesis using Nil by (simp add: dec_base_def char_at_def)
  qed
qed

lemma process_cmd_status_text:
  "process_cmd_status L hw c buf = snprintf buf L (status_text hw) \<bind> (\<lambda>out1. Some (0, out1))"
  by (simp add: process_cmd_status_def status_text_def Let_def)

lemma NUL_notin_lld_str: "NUL \<notin> set (lld_str i)"
  using NUL_notin_dec_str by (simp add: lld_str_def)

lemma NUL_notin_status_text: "NUL \<notin> set (status_text hw)"
  using NUL_notin_dec_str NUL_notin_lld_str by (simp add: status_text_def Let_def)

lemma snprintf_take: "snprintf buf n t = snprintf buf n (take (n - 1) t)"
  by (simp add: snprintf_def)

lemma snprintf_zero_take:
  assumes "0 < L"
  shows "snprintf (replicate L NUL) L t = Some (pad L (take (L - 1) t))"
proof -
  have "length (take (L - 1) t) < L" using assms by simp
  then have "snprintf (replicate L NUL) L (take (L - 1) t) = Some (pad L (take (L - 1) t))"
    by (rule snprintf_zero)
  then show ?thesis using snprintf_take [of "replicate L NUL" L t] by simp
qed

lemma process_cmd_status_closed:
  "0 < L \<Longrightarrow> process_cmd_status L hw c (replicate L NUL)
      = Some (0, pad L (take (L - 1) (status_text hw)))"
  by (simp add: process_cmd_status_text snprintf_zero_take)

lemma process_command_dispatch:
  assumes "parse_input L (Ptr msg) (Ptr (zero_Command L)) = Some (0, Ptr cmd)"
    and "(case key cmd of
            COMMAND_MAC \<Rightarrow> process_cmd_mac hw cmd (replicate L NUL)
          | COMMAND_ID \<Rightarrow> process_cmd_id cmd (replicate L NUL)
          | COMMAND_STATUS \<Rightarrow> process_cmd_status L hw cmd (replicate L NUL)
          | COMMAND_DEC \<Rightarrow> process_cmd_dec L cmd (replicate L NUL)
          | COMMAND_UNKNOWN \<Rightarrow> Some (1, replicate L NUL)) = Some (0, pad L t)"
    and "NUL \<notin> set t" and "length t < L" and "L \<le> length out"
  shows "reply (process_command L hw (Ptr msg) (Ptr out)) = Some (0, t)"
proof -
  have "process_command L hw (Ptr msg) (Ptr out) = Some (0, Ptr (pad L t @ drop L out))"
    using finish_pad [OF assms(3,4,5)]
    by (simp add: process_command_def memset_local_array init_Command_local assms(1,2) deref_def)
  then show ?thesis using reply_pad [OF assms(3,4)] by simp
qed

lemma dispatch_known:
  fixes hw :: platform
  assumes "w \<in> {''mac'', ''id'', ''status'', ''dec''}" "map tolower v = w"
    "rest = [] \<or> is_ws (hd rest)" "strlen (v @ rest) < L" "22 \<le> L" "L \<le> length out"
  defines "cmd \<equiv> \<lparr>key = token_of w, command = pad L w,
                    argument = pad L (drop 1 (takeWhile (\<lambda>c. c \<noteq> NUL) rest))\<rparr>"
  defines "rsp \<equiv> (if w = ''mac'' then ''MAC '' @ mac_text (map (esp_read_mac hw) [0..<6])
                    else if w = ''id'' then ''ID: otf2@hi.is''
                    else if w = ''status'' then take (L - 1) (status_text hw)
                    else dec_text (drop 1 (takeWhile (\<lambda>c. c \<noteq> NUL) rest)))"
  shows "parse_input L (Ptr (v @ rest)) (Ptr (zero_Command L)) = Some (0, Ptr cmd)"
    and "(if w = ''mac'' then process_cmd_mac hw cmd (replicate L NUL)
          else if w = ''id'' then process_cmd_id cmd (replicate L NUL)
          else if w = ''status'' then process_cmd_status L hw cmd (replicate L NUL)
          else process_cmd_dec L cmd (replicate L NUL)) = Some (0, pad L rsp)"
    and "c_str (pad L rsp) = Some rsp"
    and "reply (process_command L hw (Ptr (v @ rest)) (Ptr out)) = Some (0, rsp)"
proof -
  note kw = known_words [OF assms(1)]
  have ws: "\<forall>c \<in> set v. \<not> is_ws c" using kw(1) assms(2) lower_not_ws by blast
  have nn: "NUL \<notin> set v" using kw(2) assms(2) lower_not_NUL by blast
  have z: "length (command (zero_Command L)) = L" "length (argument (zero_Command L)) = L"
    by (simp_all add: zero_Command_def)
  show p: "parse_input L (Ptr (v @ rest)) (Ptr (zero_Command L)) = Some (0, Ptr cmd)"
    using parse_input_known_word [OF ws nn assms(3,4) z] by (simp add: assms(2) cmd_def)
  define num where "num = drop 1 (takeWhile (\<lambda>c. c \<noteq> NUL) rest)"
  have "set num \<subseteq> set (takeWhile (\<lambda>c. c \<noteq> NUL) rest)" unfolding num_def by (rule set_drop_subset)
  then have n1: "NUL \<notin> set num" by (auto dest: set_takeWhileD)
  have "length num \<le> length rest" by (simp add: num_def) (meson diff_le_self le_trans length_takeWhile_le)
  moreover have "strlen (v @ rest) = length v + strlen rest" using nn by (rule strlen_append)
  ultimately have n2: "length num < L" using assms(4) by (simp add: num_def strlen_def)
  have L: "0 < L" "15 \<le> L" "21 \<le> length (replicate L NUL)" using assms(5) by simp_all
  have m: "NUL \<notin> set (''MAC '' @ mac_text (map (esp_read_mac hw) [0..<6]))"
    "length (''MAC '' @ mac_text (map (esp_read_mac hw) [0..<6])) = 21"
    by (rule mac_response_props)+
  have t: "NUL \<notin> set rsp \<and> length rsp < L"
  proof -
    have "NUL \<notin> set (take (L - 1) (status_text hw))"
      using NUL_notin_status_text [of hw] by (auto dest: in_set_takeD)
    moreover have "length (take (L - 1) (status_text hw)) < L" using L(1) by simp
    moreover have "length (dec_text num) < L" using dec_text_props(2) [of num] L(2) by simp
    ultimately show ?thesis
      using m dec_text_props(1) [of num] assms(5) unfolding rsp_def num_def [symmetric] by simp
  qed
  then show cs: "c_str (pad L rsp) = Some rsp" using c_str_pad [of rsp L "[]"] by simp
  have hm: "process_cmd_mac hw cmd (replicate L NUL)
      = Some (0, pad L (''MAC '' @ mac_text (map (esp_read_mac hw) [0..<6])))"
    using process_cmd_mac_closed [OF L(3), of hw cmd] m(2) assms(5) by (simp add: pad_def)
  have hi: "process_cmd_id cmd (replicate L NUL) = Some (0, pad L ''ID: otf2@hi.is'')"
    using L(2) by (rule process_cmd_id_zero)
  have hs: "process_cmd_status L hw cmd (replicate L NUL) = Some (0, pad L (take (L - 1) (status_text hw)))"
    using L(1) by (rule process_cmd_status_closed)
  have hd: "process_cmd_dec L cmd (replicate L NUL) = Some (0, pad L (dec_text num))"
    using process_cmd_dec_zero [OF n1 n2 L(2), of "token_of w" "pad L w"]
    by (simp add: cmd_def num_def)
  show h: "(if w = ''mac'' then process_cmd_mac hw cmd (replicate L NUL)
          else if w = ''id'' then process_cmd_id cmd (replicate L NUL)
          else if w = ''status'' then process_cmd_status L hw cmd (replicate L NUL)
          else process_cmd_dec L cmd (replicate L NUL)) = Some (0, pad L rsp)"
    using hm hi hs hd unfolding rsp_def num_def [symmetric] by simp
  have k: "key cmd = token_of w" by (simp add: cmd_def)
  have "(case key cmd of
            COMMAND_MAC \<Rightarrow> process_cmd_mac hw cmd (replicate L NUL)
          | COMMAND_ID \<Rightarrow> process_cmd_id cmd (replicate L NUL)
          | COMMAND_STATUS \<Rightarrow> process_cmd_status L hw cmd (replicate L NUL)
          | COMMAND_DEC \<Rightarrow> process_cmd_dec L cmd (replicate L NUL)
          | COMMAND_UNKNOWN \<Rightarrow> Some (1, replicate L NUL)) = Some (0, pad L rsp)"
    using assms(1) h unfolding k by (auto simp: token_of_def)
  with p show "reply (process_command L hw (Ptr (v @ rest)) (Ptr out)) = Some (0, rsp)"
    using t assms(6) by (intro process_command_dispatch) simp_all
qed

section \<open>The claims\<close>

text \<open>
  C8. When the input pointer or the output pointer given to \<open>process_command\<close> is null,
  the status is \<open>-1\<close>; the result does not depend on what the other pointer refers to,
  and the output pointer is handed back as it was: nothing is read or written through
  either.
\<close>

theorem process_command_null_buffers:
  "process_command L hw NULL out_msg = Some (- 1, out_msg)
   \<and> process_command L hw in_msg NULL = Some (- 1, NULL)"
  by (simp add: process_command_def)

text \<open>
  C1. The claim is that a line of \<open>MSG_BUFFER_LENGTH\<close> or more characters gives status
  \<open>-2\<close>. The tokenizer does return \<open>-2\<close>, but \<open>process_command\<close> drops that value:
  the freshly initialised Command keeps \<open>COMMAND_UNKNOWN\<close> and the status is \<open>1\<close>.
  The output buffer is left as it was.
\<close>

theorem process_command_overflow_status:
  "L \<le> strlen msg \<Longrightarrow>
   parse_input L (Ptr msg) (Ptr cmd) = Some (- 2, Ptr cmd)
   \<and> process_command L hw (Ptr msg) (Ptr out) = Some (1, Ptr out)"
  by (simp add: process_command_def memset_local_array init_Command_local parse_input_def
      deref_def zero_Command_def)

theorem process_command_overflow_status_witness:
  "(4::nat) \<le> strlen ''abcd''
   \<and> parse_input 4 (Ptr ''abcd'') (Ptr (zero_Command 4)) = Some (- 2, Ptr (zero_Command 4))
   \<and> process_command 4 bench (Ptr ''abcd'') (Ptr ''----'') = Some (1, Ptr ''----'')"
proof -
  have h: "(4::nat) \<le> strlen ''abcd''" by (simp add: strlen_def)
  show ?thesis
    using h process_command_overflow_status [OF h, of "zero_Command 4" bench "''----''"] by simp
qed

text \<open>
  C7. Whenever \<open>process_command\<close> returns a status other than \<open>0\<close>, the caller's output
  buffer is what it was before the call. With buffers of at least 22 characters the call
  always returns, with status \<open>0\<close>, or with status \<open>1\<close> and the output buffer untouched.
\<close>

theorem process_command_nonzero_writes_nothing:
  "(process_command L hw in_msg out_msg = Some (st, out') \<and> st \<noteq> 0 \<longrightarrow> out' = out_msg)
   \<and> (22 \<le> L \<and> L \<le> length out \<longrightarrow>
        (\<exists>st out'. process_command L hw (Ptr msg) (Ptr out) = Some (st, Ptr out')
           \<and> (st = 0 \<or> st = 1 \<and> out' = out)))"
proof -
  have "out' = out_msg" if "process_command L hw in_msg out_msg = Some (st, out')" "st \<noteq> 0"
    using that
    by (auto simp: process_command_def split: if_splits bind_splits CommandToken.splits
        dest: process_cmd_mac_status process_cmd_id_status process_cmd_status_status
          process_cmd_dec_status)
  then show ?thesis using process_command_defined [of L out hw msg] by blast
qed

theorem process_command_nonzero_writes_nothing_witness:
  "process_command 24 bench (Ptr ''foobar'') (Ptr (replicate 24 (CHR ''-'')))
      = Some (1, Ptr (replicate 24 (CHR ''-'')))
   \<and> (1::int) \<noteq> 0
   \<and> (22::nat) \<le> 24 \<and> 24 \<le> length (replicate 24 (CHR ''-''))
   \<and> (\<exists>st out'. process_command 24 bench (Ptr ''dec 7'') (Ptr (replicate 24 (CHR ''-'')))
          = Some (st, Ptr out')
        \<and> (st = 0 \<or> st = 1 \<and> out' = replicate 24 (CHR ''-'')))"
proof -
  have h: "process_command 24 bench (Ptr ''foobar'') (Ptr (replicate 24 (CHR ''-'')))
      = Some (1, Ptr (replicate 24 (CHR ''-'')))"
    by (simp add: process_command_def memset_local_array init_Command_local parse_input_closed
        zero_Command_def strlen_def is_ws_def token_of_def tolower_def char_of_def deref_def)
  have n: "(1::int) \<noteq> 0" by simp
  have b: "(22::nat) \<le> 24 \<and> 24 \<le> length (replicate 24 (CHR ''-''))" by simp
  show ?thesis
    using h n b
      process_command_nonzero_writes_nothing [of 24 bench "Ptr ''foobar''"
        "Ptr (replicate 24 (CHR ''-''))" 1 "Ptr (replicate 24 (CHR ''-''))"
        "replicate 24 (CHR ''-'')" "''dec 7''"]
    by blast
qed

text \<open>
  C5. Let \<open>w\<close> be one of the command words \<open>mac\<close>, \<open>id\<close>, \<open>status\<close>, \<open>dec\<close> and
  \<open>v\<close> any spelling of it in upper and lower case. A line that starts with \<open>v\<close> is
  tokenized and processed exactly as the line that starts with \<open>w\<close>. When the word is
  the whole line or is followed by a space or a tab, and the line fits the buffer, the
  key is the token of \<open>w\<close>; with buffers of at least 22 characters the call then returns
  status 0 and the response is the string that the handler of \<open>w\<close> writes for the
  tokenized Command: the address text for \<open>mac\<close>, the identity string for \<open>id\<close>, the
  status text cut to the buffer for \<open>status\<close>, the answer of the number parser for
  \<open>dec\<close>.
\<close>

theorem command_word_case_insensitive:
  assumes "w \<in> {''mac'', ''id'', ''status'', ''dec''}" and "map tolower v = w"
  shows "parse_input L (Ptr (v @ rest)) p = parse_input L (Ptr (w @ rest)) p
    \<and> process_command L hw (Ptr (v @ rest)) out_msg = process_command L hw (Ptr (w @ rest)) out_msg
    \<and> ((rest = [] \<or> is_ws (hd rest)) \<and> strlen (v @ rest) < L
          \<and> length (command c) = L \<and> length (argument c) = L \<longrightarrow>
        (\<exists>cmd. parse_input L (Ptr (v @ rest)) (Ptr c) = Some (0, Ptr cmd)
           \<and> key cmd = token_of w \<and> key cmd \<noteq> COMMAND_UNKNOWN))
    \<and> ((rest = [] \<or> is_ws (hd rest)) \<and> strlen (v @ rest) < L \<and> 22 \<le> L \<and> L \<le> length out \<longrightarrow>
        (\<exists>cmd buf rsp.
           parse_input L (Ptr (v @ rest)) (Ptr (zero_Command L)) = Some (0, Ptr cmd)
           \<and> key cmd = token_of w
           \<and> (if w = ''mac'' then process_cmd_mac hw cmd (replicate L NUL)
               else if w = ''id'' then process_cmd_id cmd (replicate L NUL)
               else if w = ''status'' then process_cmd_status L hw cmd (replicate L NUL)
               else process_cmd_dec L cmd (replicate L NUL)) = Some (0, buf)
           \<and> c_str buf = Some rsp
           \<and> rsp = (if w = ''mac'' then ''MAC '' @ mac_text (map (esp_read_mac hw) [0..<6])
                     else if w = ''id'' then ''ID: otf2@hi.is''
                     else if w = ''status'' then take (L - 1) (status_text hw)
                     else dec_text (drop 1 (takeWhile (\<lambda>c. c \<noteq> NUL) rest)))
           \<and> reply (process_command L hw (Ptr (v @ rest)) (Ptr out)) = Some (0, rsp)
           \<and> reply (process_command L hw (Ptr (w @ rest)) (Ptr out)) = Some (0, rsp)))"
proof -
  note kw = known_words [OF assms(1)]
  have ws: "\<forall>c \<in> set v. \<not> is_ws c" using kw(1) assms(2) lower_not_ws by blast
  have nn: "NUL \<notin> set v" using kw(2) assms(2) lower_not_NUL by blast
  have eq: "parse_input L (Ptr (v @ rest)) q = parse_input L (Ptr (w @ rest)) q" for q
    using parse_input_lower [OF ws nn] assms(2) by simp
  have pc: "process_command L hw (Ptr (v @ rest)) q = process_command L hw (Ptr (w @ rest)) q" for q
    using eq by (rule process_command_cong)
  have 3: "\<exists>cmd. parse_input L (Ptr (v @ rest)) (Ptr c) = Some (0, Ptr cmd)
           \<and> key cmd = token_of w \<and> key cmd \<noteq> COMMAND_UNKNOWN"
    if "rest = [] \<or> is_ws (hd rest)" "strlen (v @ rest) < L"
      "length (command c) = L" "length (argument c) = L"
    using parse_input_known_word [OF ws nn that] assms(2) kw(3) by simp
  have 4: "\<exists>cmd buf rsp.
           parse_input L (Ptr (v @ rest)) (Ptr (zero_Command L)) = Some (0, Ptr cmd)
           \<and> key cmd = token_of w
           \<and> (if w = ''mac'' then process_cmd_mac hw cmd (replicate L NUL)
               else if w = ''id'' then process_cmd_id cmd (replicate L NUL)
               else if w = ''status'' then process_cmd_status L hw cmd (replicate L NUL)
               else process_cmd_dec L cmd (replicate L NUL)) = Some (0, buf)
           \<and> c_str buf = Some rsp
           \<and> rsp = (if w = ''mac'' then ''MAC '' @ mac_text (map (esp_read_mac hw) [0..<6])
                     else if w = ''id'' then ''ID: otf2@hi.is''
                     else if w = ''status'' then take (L - 1) (status_text hw)
                     else dec_text (drop 1 (takeWhile (\<lambda>c. c \<noteq> NUL) rest)))
           \<and> reply (process_command L hw (Ptr (v @ rest)) (Ptr out)) = Some (0, rsp)
           \<and> reply (process_command L hw (Ptr (w @ rest)) (Ptr out)) = Some (0, rsp)"
    if h: "rest = [] \<or> is_ws (hd rest)" "strlen (v @ rest) < L" "22 \<le> L" "L \<le> length out"
  proof -
    note d = dispatch_known(1) [OF assms(1,2) h] dispatch_known(2) [OF assms(1,2) h, of hw]
      dispatch_known(3) [OF assms(1,2) h, of hw] dispatch_known(4) [OF assms(1,2) h, of hw]
    have k: "key \<lparr>key = token_of w, command = pad L w,
        argument = pad L (drop 1 (takeWhile (\<lambda>c. c \<noteq> NUL) rest))\<rparr> = token_of w" by simp
    from d(4) have "reply (process_command L hw (Ptr (w @ rest)) (Ptr out)) =
        Some (0, if w = ''mac'' then ''MAC '' @ mac_text (map (esp_read_mac hw) [0..<6])
                     else if w = ''id'' then ''ID: otf2@hi.is''
                     else if w = ''status'' then take (L - 1) (status_text hw)
                     else dec_text (drop 1 (takeWhile (\<lambda>c. c \<noteq> NUL) rest)))"
      unfolding pc .
    with d k show ?thesis by blast
  qed
  show ?thesis using eq pc 3 4 by blast
qed

theorem command_word_case_insensitive_witness:
  "''mac'' \<in> {''mac'', ''id'', ''status'', ''dec''} \<and> map tolower ''mAc'' = ''mac''
   \<and> strlen (''mAc'' @ '' x'') < 24 \<and> (22::nat) \<le> 24 \<and> 24 \<le> length (replicate 24 (CHR ''-''))
   \<and> parse_input 24 (Ptr (''mAc'' @ '' x'')) (Ptr (zero_Command 24))
       = parse_input 24 (Ptr (''mac'' @ '' x'')) (Ptr (zero_Command 24))
   \<and> (\<exists>cmd. parse_input 24 (Ptr (''mAc'' @ '' x'')) (Ptr (zero_Command 24)) = Some (0, Ptr cmd)
           \<and> key cmd = COMMAND_MAC
           \<and> process_cmd_mac bench cmd (replicate 24 NUL)
                = Some (0, ''MAC 01:02:AB:CD:EF:00'' @ replicate 3 NUL))
   \<and> reply (process_command 24 bench (Ptr (''mAc'' @ '' x'')) (Ptr (replicate 24 (CHR ''-''))))
       = Some (0, ''MAC 01:02:AB:CD:EF:00'')
   \<and> reply (process_command 24 bench (Ptr (''mac'' @ '' x'')) (Ptr (replicate 24 (CHR ''-''))))
       = Some (0, ''MAC 01:02:AB:CD:EF:00'')"
proof -
  have h1: "''mac'' \<in> {''mac'', ''id'', ''status'', ''dec''}" by simp
  have h2: "map tolower ''mAc'' = ''mac''" by code_simp
  have h3: "('' x'' = [] \<or> is_ws (hd '' x'')) \<and> strlen (''mAc'' @ '' x'') < 24
          \<and> (22::nat) \<le> 24 \<and> 24 \<le> length (replicate 24 (CHR ''-''))"
    by (simp add: is_ws_def strlen_def)
  have m: "map (esp_read_mac bench) [0..<6] = [0x01, 0x02, 0xAB, 0xCD, 0xEF, 0x00]"
    by (simp add: bench_def upt_conv_Cons)
  have e: "''MAC '' @ mac_text (map (esp_read_mac bench) [0..<6]) = ''MAC 01:02:AB:CD:EF:00''"
    unfolding m mac_text_example by simp
  have t: "token_of ''mac'' = COMMAND_MAC" by (simp add: token_of_def)
  note T = command_word_case_insensitive [OF h1 h2, of 24 "'' x''" "Ptr (zero_Command 24)" bench
        "Ptr (replicate 24 (CHR ''-''))" "zero_Command 24" "replicate 24 (CHR ''-'')"]
  from T have eq: "parse_input 24 (Ptr (''mAc'' @ '' x'')) (Ptr (zero_Command 24))
       = parse_input 24 (Ptr (''mac'' @ '' x'')) (Ptr (zero_Command 24))" by blast
  from T h3 obtain cmd buf rsp where r:
    "parse_input 24 (Ptr (''mAc'' @ '' x'')) (Ptr (zero_Command 24)) = Some (0, Ptr cmd)"
    "key cmd = token_of ''mac''"
    "(if ''mac'' = ''mac'' then process_cmd_mac bench cmd (replicate 24 NUL)
               else if ''mac'' = ''id'' then process_cmd_id cmd (replicate 24 NUL)
               else if ''mac'' = ''status'' then process_cmd_status 24 bench cmd (replicate 24 NUL)
               else process_cmd_dec 24 cmd (replicate 24 NUL)) = Some (0, buf)"
    "c_str buf = Some rsp"
    "rsp = (if ''mac'' = ''mac'' then ''MAC '' @ mac_text (map (esp_read_mac bench) [0..<6])
                     else if ''mac'' = ''id'' then ''ID: otf2@hi.is''
                     else if ''mac'' = ''status'' then take (24 - 1) (status_text bench)
                     else dec_text (drop 1 (takeWhile (\<lambda>c. c \<noteq> NUL) '' x'')))"
    "reply (process_command 24 bench (Ptr (''mAc'' @ '' x'')) (Ptr (replicate 24 (CHR ''-'')))) = Some (0, rsp)"
    "reply (process_command 24 bench (Ptr (''mac'' @ '' x'')) (Ptr (replicate 24 (CHR ''-'')))) = Some (0, rsp)"
    by blast
  have rsp: "rsp = ''MAC 01:02:AB:CD:EF:00''" using r(5) e by simp
  have "21 \<le> length (replicate 24 NUL)" by simp
  then have "process_cmd_mac bench cmd (replicate 24 NUL)
     = Some (0, ''MAC '' @ mac_text (map (esp_read_mac bench) [0..<6]) @ drop 21 (replicate 24 NUL))"
    by (rule process_cmd_mac_closed)
  then have hm: "process_cmd_mac bench cmd (replicate 24 NUL)
                = Some (0, ''MAC 01:02:AB:CD:EF:00'' @ replicate 3 NUL)"
    unfolding m mac_text_example by simp
  show ?thesis
    using h1 h2 h3 eq r(1) r(2) r(6) r(7) hm unfolding rsp t by blast
qed

text \<open>
  C6. For a line made of a word \<open>w\<close>, one space or tab, and any further characters
  \<open>rest\<close>, the tokenizer drops that one separator and nothing else: the argument array
  holds \<open>rest\<close> as it is, spaces and tabs included, followed by zeros.
\<close>

theorem parse_input_argument_verbatim:
  assumes "\<forall>c \<in> set w. \<not> is_ws c \<and> c \<noteq> NUL" and "is_ws sp" and "NUL \<notin> set rest"
    and "length w + 1 + length rest < L"
    and "length (command c) = L" and "length (argument c) = L"
  shows "\<exists>cmd. parse_input L (Ptr (w @ sp # rest)) (Ptr c) = Some (0, Ptr cmd)
     \<and> command cmd = map tolower w @ replicate (L - length w) NUL
     \<and> argument cmd = rest @ replicate (L - length rest) NUL
     \<and> c_str (argument cmd) = Some rest"
proof -
  have ws: "\<forall>c \<in> set w. \<not> is_ws c" and nn: "NUL \<notin> set w" using assms(1) by auto
  have sp: "sp \<noteq> NUL" using assms(2) by (auto simp: is_ws_def)
  have r: "sp # rest = [] \<or> is_ws (hd (sp # rest))" using assms(2) by simp
  have "NUL \<notin> set (w @ sp # rest)" using nn sp assms(3) by auto
  then have "takeWhile (\<lambda>c. c \<noteq> NUL) (w @ sp # rest) = w @ sp # rest" by (rule takeWhile_no_NUL)
  then have "strlen (w @ sp # rest) = length (w @ sp # rest)" unfolding strlen_def by (rule arg_cong)
  then have l: "strlen (w @ sp # rest) < L" using assms(4) by simp
  have t: "takeWhile (\<lambda>c. c \<noteq> NUL) (sp # rest) = sp # rest"
    using sp assms(3) by (simp add: takeWhile_no_NUL)
  have "length rest < L" using assms(4) by simp
  then have c: "c_str (pad L rest) = Some rest"
    using c_str_pad [OF assms(3), of L "[]"] by simp
  have k: "parse_input L (Ptr (w @ sp # rest)) (Ptr c) =
    Some (0, Ptr \<lparr>key = token_of (map tolower w), command = pad L (map tolower w),
       argument = pad L rest\<rparr>)"
    using parse_input_known_word [OF ws nn r l assms(5,6)] unfolding t by simp
  show ?thesis
    unfolding k using c by (simp add: pad_def)
qed

theorem parse_input_argument_verbatim_witness:
  "is_ws (CHR '' '') \<and> NUL \<notin> set ''  4 2 ''
   \<and> length ''Dec'' + 1 + length ''  4 2 '' < (12::nat)
   \<and> length (command (zero_Command 12)) = 12 \<and> length (argument (zero_Command 12)) = 12
   \<and> (\<exists>cmd. parse_input 12 (Ptr ''Dec   4 2 '') (Ptr (zero_Command 12)) = Some (0, Ptr cmd)
       \<and> command cmd = ''dec'' @ replicate 9 NUL
       \<and> argument cmd = ''  4 2 '' @ replicate 6 NUL
       \<and> c_str (argument cmd) = Some ''  4 2 '')"
proof -
  have h1: "\<forall>c \<in> set ''Dec''. \<not> is_ws c \<and> c \<noteq> NUL" by (simp add: is_ws_def)
  have h2: "is_ws (CHR '' '')" by (simp add: is_ws_def)
  have h3: "NUL \<notin> set ''  4 2 ''" by simp
  have h4: "length ''Dec'' + 1 + length ''  4 2 '' < (12::nat)" by simp
  have h5: "length (command (zero_Command 12)) = 12" "length (argument (zero_Command 12)) = 12"
    by (simp_all add: zero_Command_def)
  have l: "map tolower ''Dec'' = ''dec''" by code_simp
  show ?thesis
    using h1 h2 h3 h4 h5 l parse_input_argument_verbatim [OF h1 h2 h3 h4 h5]
    by simp
qed

text \<open>
  C10. On the base 10 path the argument is handed to \<open>strtoul\<close> as it is, and \<open>strtoul\<close>
  skips leading white space and accepts a sign. So an argument made of spaces and tabs,
  then possibly one \<open>+\<close>, then decimal digits with a value of at most \<open>0xFFFF\<close>, gets
  the decimal value as its response; when there is neither a space nor a sign, the
  digits themselves must be on the base 10 path, that is, have no leading \<open>0\<close> before
  further characters. The tokenizer keeps a second space of the line in
  the argument, so that the line \<open>dec\<close>, two spaces, \<open>42\<close> is answered \<open>42\<close>.
\<close>

theorem dec_lenient_prefix:
  assumes "\<forall>c \<in> set ws. is_ws c" and "sg = [] \<or> sg = ''+''"
    and "ds \<noteq> []" and "\<forall>c \<in> set ds. is_digit c" and "dec_value ds \<le> 0xFFFF"
    and "ws \<noteq> [] \<or> sg \<noteq> [] \<or> dec_base ds = 10"
    and "4 + length (ws @ sg @ ds) < L" and "15 \<le> L" and "L \<le> length out"
  shows "process_cmd_dec L \<lparr>key = k, command = c, argument = pad L (ws @ sg @ ds)\<rparr>
            (replicate L NUL) = Some (0, pad L (dec_str (dec_value ds)))
    \<and> reply (process_command L hw (Ptr (''dec '' @ ws @ sg @ ds)) (Ptr out))
          = Some (0, dec_str (dec_value ds))"
proof -
  have v: "dec_value ds \<le> 65535" using assms(5) by simp
  have b: "dec_base (ws @ sg @ ds) = 10" using assms(1,2,6) by (rule dec_base_lenient)
  have t: "dec_text (ws @ sg @ ds) = dec_str (dec_value ds)"
    using assms(1,2,3,4) v b by (rule dec_text_lenient)
  have n: "NUL \<notin> set (ws @ sg @ ds)" using assms(1,2,4) by (rule lenient_no_NUL)
  have l: "length (ws @ sg @ ds) < L" using assms(7) by simp
  have 1: "process_cmd_dec L \<lparr>key = k, command = c, argument = pad L (ws @ sg @ ds)\<rparr>
            (replicate L NUL) = Some (0, pad L (dec_str (dec_value ds)))"
    using process_cmd_dec_zero [OF n l assms(8)] by (simp only: t)
  have lo: "map tolower ''dec'' = ''dec''" by code_simp
  have sp: "CHR '' '' # ws @ sg @ ds = [] \<or> is_ws (hd (CHR '' '' # ws @ sg @ ds))"
    by (simp add: is_ws_def)
  have n2: "NUL \<notin> set (CHR '' '' # ws @ sg @ ds)" using n by simp
  have "NUL \<notin> set (''dec'' @ CHR '' '' # ws @ sg @ ds)" using n by simp
  then have "strlen (''dec'' @ CHR '' '' # ws @ sg @ ds) = length (''dec'' @ CHR '' '' # ws @ sg @ ds)"
    by (rule strlen_no_NUL)
  then have sl: "strlen (''dec'' @ CHR '' '' # ws @ sg @ ds) < L" using assms(7) by simp
  have 2: "reply (process_command L hw (Ptr (''dec'' @ CHR '' '' # ws @ sg @ ds)) (Ptr out))
     = Some (0, dec_text (drop 1 (takeWhile (\<lambda>c. c \<noteq> NUL) (CHR '' '' # ws @ sg @ ds))))"
    using lo sp sl assms(8,9) by (rule reply_dec)
  have 3: "drop 1 (takeWhile (\<lambda>c. c \<noteq> NUL) (CHR '' '' # ws @ sg @ ds)) = ws @ sg @ ds"
    unfolding takeWhile_no_NUL [OF n2] by simp
  show ?thesis
    using 1 2 unfolding 3 t by simp
qed

theorem dec_lenient_prefix_witness:
  "([] = [] \<or> [] = ''+'') \<and> ''42'' \<noteq> [] \<and> dec_value ''42'' \<le> 0xFFFF
    \<and> 4 + length ('' '' @ [] @ ''42'') < (16::nat) \<and> (15::nat) \<le> 16
    \<and> 16 \<le> length (replicate 16 (CHR ''-''))
    \<and> reply (process_command 16 bench (Ptr (''dec '' @ '' '' @ [] @ ''42''))
          (Ptr (replicate 16 (CHR ''-'')))) = Some (0, dec_str (dec_value ''42''))
    \<and> dec_str (dec_value ''42'') = ''42''"
proof -
  have h1: "\<forall>c \<in> set '' ''. is_ws c" by (simp add: is_ws_def)
  have h2: "[] = [] \<or> [] = ''+''" by simp
  have h3: "''42'' \<noteq> []" by simp
  have h4: "\<forall>c \<in> set ''42''. is_digit c" by (simp add: is_digit_def)
  have h5: "dec_value ''42'' \<le> 0xFFFF" by (simp add: dec_value_def)
  have h6: "'' '' \<noteq> [] \<or> [] \<noteq> ([] :: string) \<or> dec_base ''42'' = 10" by simp
  have h7: "4 + length ('' '' @ [] @ ''42'') < (16::nat)" by simp
  have h8: "(15::nat) \<le> 16" by simp
  have h9: "16 \<le> length (replicate 16 (CHR ''-''))" by simp
  have v: "dec_str (dec_value ''42'') = ''42''"
    by (simp add: dec_value_def dec_str_examples)
  show ?thesis
    using h2 h3 h5 h7 h8 h9 v
      dec_lenient_prefix [OF h1 h2 h3 h4 h5 h6 h7 h8 h9, of COMMAND_DEC "[]" bench]
    by blast
qed

text \<open>
  C3. The base is read off the start of the argument: \<open>0x\<close> gives base 16 and \<open>0b\<close> base 2,
  the number starting two characters later; another character after a leading \<open>0\<close> gives
  base 8, the number starting one character later; anything else gives base 10. With
  buffers of at least 15 characters, the seven lines of the specification get the
  responses it lists, each with status 0.
\<close>

theorem dec_examples:
  assumes "15 \<le> L" and "L \<le> length out"
  shows "reply (process_command L hw (Ptr ''dec 0x10'') (Ptr out)) = Some (0, ''16'')
    \<and> reply (process_command L hw (Ptr ''dec 0b101'') (Ptr out)) = Some (0, ''5'')
    \<and> reply (process_command L hw (Ptr ''dec 010'') (Ptr out)) = Some (0, ''8'')
    \<and> reply (process_command L hw (Ptr ''dec 65535'') (Ptr out)) = Some (0, ''65535'')
    \<and> reply (process_command L hw (Ptr ''dec 65536'') (Ptr out)) = Some (0, ''ARGUMENT ERROR'')
    \<and> reply (process_command L hw (Ptr ''dec abc'') (Ptr out)) = Some (0, ''ARGUMENT ERROR'')
    \<and> reply (process_command L hw (Ptr ''dec'') (Ptr out)) = Some (0, ''ARGUMENT ERROR'')
    \<and> dec_base (''0x'' @ r) = 16 \<and> dec_sub 16 = 2
    \<and> dec_base (''0b'' @ r) = 2 \<and> dec_sub 2 = 2
    \<and> (c \<noteq> CHR ''x'' \<and> c \<noteq> CHR ''b'' \<and> c \<noteq> NUL \<longrightarrow> dec_base (CHR ''0'' # c # r) = 8)
    \<and> dec_sub 8 = 1
    \<and> (char_at num 0 \<noteq> CHR ''0'' \<or> strlen num \<le> 1 \<longrightarrow> dec_base num = 10)
    \<and> dec_sub 10 = 0"
proof -
  have l: "map tolower ''dec'' = ''dec''" by code_simp
  have sp: "is_ws (CHR '' '')" by (simp add: is_ws_def)
  have r: "reply (process_command L hw (Ptr (''dec'' @ CHR '' '' # a)) (Ptr out)) = Some (0, dec_text a)"
    if "NUL \<notin> set a" "length a < 10" for a
  proof -
    have "NUL \<notin> set (''dec'' @ CHR '' '' # a)" using that(1) by simp
    then have "strlen (''dec'' @ CHR '' '' # a) = length (''dec'' @ CHR '' '' # a)"
      by (rule strlen_no_NUL)
    then have "strlen (''dec'' @ CHR '' '' # a) < L" using that(2) assms(1) by simp
    then show ?thesis
      using reply_dec [OF l _ _ assms, of "CHR '' '' # a" hw] sp
      by (simp add: takeWhile_no_NUL [OF that(1)])
  qed
  have r0: "reply (process_command L hw (Ptr ''dec'') (Ptr out)) = Some (0, dec_text [])"
    using reply_dec [OF l _ _ assms, of "[]" hw] assms(1) by (simp add: strlen_def)
  have b: "dec_base (''0x'' @ r) = 16" "dec_base (''0b'' @ r) = 2"
    "c \<noteq> CHR ''x'' \<and> c \<noteq> CHR ''b'' \<and> c \<noteq> NUL \<longrightarrow> dec_base (CHR ''0'' # c # r) = 8"
    "char_at num 0 \<noteq> CHR ''0'' \<or> strlen num \<le> 1 \<longrightarrow> dec_base num = 10"
    by (auto simp: dec_base_def char_at_def strlen_def)
  show ?thesis
    using r [of "''0x10''"] r [of "''0b101''"] r [of "''010''"] r [of "''65535''"]
      r [of "''65536''"] r [of "''abc''"] r0 b
    by (simp add: dec_text_examples dec_sub_values)
qed

theorem dec_examples_witness:
  "(15::nat) \<le> 16 \<and> 16 \<le> length (replicate 16 (CHR ''-''))
    \<and> reply (process_command 16 bench (Ptr ''dec 0x10'') (Ptr (replicate 16 (CHR ''-'')))) = Some (0, ''16'')
    \<and> reply (process_command 16 bench (Ptr ''dec 65536'') (Ptr (replicate 16 (CHR ''-''))))
        = Some (0, ''ARGUMENT ERROR'')
    \<and> dec_base (''0x'' @ ''10'') = 16 \<and> dec_base (CHR ''0'' # CHR ''1'' # ''10'') = 8"
proof -
  have h1: "(15::nat) \<le> 16" by simp
  have h2: "16 \<le> length (replicate 16 (CHR ''-''))" by simp
  have h3: "CHR ''1'' \<noteq> CHR ''x'' \<and> CHR ''1'' \<noteq> CHR ''b'' \<and> CHR ''1'' \<noteq> NUL" by simp
  show ?thesis
    using h1 h2 h3 dec_examples [OF h1 h2, of bench "''10''" "CHR ''1''" "''0''"]
    by blast
qed

text \<open>
  C2. The claim is that an empty string after the base prefix gives \<open>ARGUMENT ERROR\<close>.
  For the arguments \<open>0x\<close> and \<open>0b\<close> the code answers \<open>0\<close>: \<open>strtoul\<close> gets the empty
  string and sets the end pointer to its start, which is two characters after \<open>num\<close>,
  and the test compares the end pointer with \<open>num\<close>.
\<close>

theorem dec_empty_after_prefix:
  assumes "15 \<le> L" and "L \<le> length out"
  shows "reply (process_command L hw (Ptr ''dec 0x'') (Ptr out)) = Some (0, ''0'')
    \<and> reply (process_command L hw (Ptr ''dec 0b'') (Ptr out)) = Some (0, ''0'')
    \<and> process_cmd_dec L \<lparr>key = COMMAND_DEC, command = pad L ''dec'', argument = pad L ''0x''\<rparr>
          (replicate L NUL) = Some (0, pad L ''0'')"
proof -
  have l: "map tolower ''dec'' = ''dec''" by code_simp
  have sp: "is_ws (CHR '' '')" by (simp add: is_ws_def)
  have "reply (process_command L hw (Ptr (''dec'' @ '' 0x'')) (Ptr out)) = Some (0, dec_text ''0x'')"
    using reply_dec [OF l _ _ assms, of "'' 0x''" hw] sp assms(1) by (simp add: strlen_def)
  moreover have "reply (process_command L hw (Ptr (''dec'' @ '' 0b'')) (Ptr out)) = Some (0, dec_text ''0b'')"
    using reply_dec [OF l _ _ assms, of "'' 0b''" hw] sp assms(1) by (simp add: strlen_def)
  moreover have "process_cmd_dec L \<lparr>key = COMMAND_DEC, command = pad L ''dec'', argument = pad L ''0x''\<rparr>
          (replicate L NUL) = Some (0, pad L (dec_text ''0x''))"
    using assms(1) by (intro process_cmd_dec_zero) simp_all
  ultimately show ?thesis by (simp add: dec_text_empty_after_prefix)
qed

theorem dec_empty_after_prefix_witness:
  "(15::nat) \<le> 16 \<and> 16 \<le> length (replicate 16 (CHR ''-''))
    \<and> reply (process_command 16 bench (Ptr ''dec 0x'') (Ptr (replicate 16 (CHR ''-'')))) = Some (0, ''0'')
    \<and> reply (process_command 16 bench (Ptr ''dec 0b'') (Ptr (replicate 16 (CHR ''-'')))) = Some (0, ''0'')"
proof -
  have h1: "(15::nat) \<le> 16" by simp
  have h2: "16 \<le> length (replicate 16 (CHR ''-''))" by simp
  show ?thesis
    using h1 h2 dec_empty_after_prefix [OF h1 h2, of bench] by blast
qed

text \<open>
  C4. For six bytes and an output array with room for 17 characters at the offset,
  \<open>mac_to_string\<close> returns, and the 17 characters it leaves there are the six bytes, each
  as two digits of \<open>0123456789ABCDEF\<close> with the high nibble first, joined by five colons
  with none at the end.
\<close>

theorem mac_to_string_format:
  assumes "length mac = 6" and "off + 17 \<le> length out"
  shows "\<exists>out'. mac_to_string (Ptr mac) (Ptr out) off = Some (Ptr out')
      \<and> take 17 (drop off out') = mac_text mac
      \<and> length (mac_text mac) = 17
      \<and> mac_text mac = hex2 (mac ! 0) @ '':'' @ hex2 (mac ! 1) @ '':'' @ hex2 (mac ! 2) @ '':''
            @ hex2 (mac ! 3) @ '':'' @ hex2 (mac ! 4) @ '':'' @ hex2 (mac ! 5)
      \<and> hex2 (mac ! 0) = [''0123456789ABCDEF'' ! (unat (mac ! 0) div 16),
                            ''0123456789ABCDEF'' ! (unat (mac ! 0) mod 16)]
      \<and> length (filter (\<lambda>c. c = CHR '':'') (mac_text mac)) = 5"
proof -
  have l: "length (mac_text mac) = 17" using assms(1) by (rule mac_text_props(1))
  have "off + length (mac_text mac) \<le> length out" using assms(2) l by simp
  then have "take (length (mac_text mac)) (drop off (overlay out off (mac_text mac))) = mac_text mac"
    by (rule overlay_window)
  then have w: "take 17 (drop off (overlay out off (mac_text mac))) = mac_text mac"
    unfolding l .
  have h: "hex2 (mac ! 0) = [''0123456789ABCDEF'' ! (unat (mac ! 0) div 16),
                            ''0123456789ABCDEF'' ! (unat (mac ! 0) mod 16)]"
    unfolding hex2_def hexmap_def ..
  show ?thesis
    using mac_to_string_closed [OF assms] w l mac_text_props(4) [OF assms(1)] h
      mac_text_props(2) [OF assms(1)]
    by blast
qed

theorem mac_to_string_format_witness:
  "length [0x01, 0x02, 0xAB, 0xCD, 0xEF, 0x00 :: 8 word] = 6
    \<and> 0 + 17 \<le> length (replicate 17 (CHR ''-''))
    \<and> (\<exists>out'. mac_to_string (Ptr [0x01, 0x02, 0xAB, 0xCD, 0xEF, 0x00]) (Ptr (replicate 17 (CHR ''-''))) 0
           = Some (Ptr out')
         \<and> take 17 (drop 0 out') = ''01:02:AB:CD:EF:00'')"
proof -
  have h1: "length [0x01, 0x02, 0xAB, 0xCD, 0xEF, 0x00 :: 8 word] = 6" by simp
  have h2: "0 + 17 \<le> length (replicate 17 (CHR ''-''))" by simp
  obtain out' where
    "mac_to_string (Ptr [0x01, 0x02, 0xAB, 0xCD, 0xEF, 0x00]) (Ptr (replicate 17 (CHR ''-''))) 0
       = Some (Ptr out')"
    "take 17 (drop 0 out') = mac_text [0x01, 0x02, 0xAB, 0xCD, 0xEF, 0x00]"
    using mac_to_string_format [OF h1 h2] by blast
  then show ?thesis
    using h1 h2 unfolding mac_text_example by blast
qed

text \<open>
  C9. \<open>mac_to_string\<close> changes the 17 bytes at offsets 0 to 16 from where its output
  pointer points and no other byte: the array keeps its length, every byte outside that
  window keeps its value, and an array without a zero byte has none afterwards. So
  \<open>process_cmd_mac\<close> leaves the bytes from offset 21 on as they were, and on a buffer
  without a zero byte its result is not a terminated string. Through \<open>process_command\<close>,
  which fills its buffer with zeros first, the response is the terminated string
  \<open>MAC\<close>, a space and the address.
\<close>

theorem mac_to_string_frame:
  assumes "length mac = 6" and "off + 17 \<le> length out"
  shows "\<exists>out'. mac_to_string (Ptr mac) (Ptr out) off = Some (Ptr out')
      \<and> length out' = length out
      \<and> (\<forall>i < length out. i < off \<or> off + 17 \<le> i \<longrightarrow> out' ! i = out ! i)
      \<and> (NUL \<notin> set out \<longrightarrow> NUL \<notin> set out')
      \<and> (21 \<le> length out \<longrightarrow>
           process_cmd_mac hw cmd out
             = Some (0, ''MAC '' @ mac_text (map (esp_read_mac hw) [0..<6]) @ drop 21 out)
           \<and> (NUL \<notin> set out \<longrightarrow>
                c_str (''MAC '' @ mac_text (map (esp_read_mac hw) [0..<6]) @ drop 21 out) = None))
      \<and> (22 \<le> L \<and> L \<le> length out \<longrightarrow>
           reply (process_command L hw (Ptr ''mac'') (Ptr out))
             = Some (0, ''MAC '' @ mac_text (map (esp_read_mac hw) [0..<6])))"
proof -
  let ?o = "overlay out off (mac_text mac)"
  have l: "length (mac_text mac) = 17" using assms(1) by (rule mac_text_props(1))
  have b: "off + length (mac_text mac) \<le> length out" using assms(2) l by simp
  have 1: "mac_to_string (Ptr mac) (Ptr out) off = Some (Ptr ?o)"
    using assms by (rule mac_to_string_closed)
  have 2: "length ?o = length out" using b by (rule length_overlay)
  have 3: "\<forall>i < length out. i < off \<or> off + 17 \<le> i \<longrightarrow> ?o ! i = out ! i"
    using overlay_frame [OF b] unfolding l by blast
  have 4: "NUL \<notin> set out \<longrightarrow> NUL \<notin> set ?o"
    using overlay_no_NUL [of out "mac_text mac" off] mac_text_props(3) [OF assms(1)] by blast
  have 5: "process_cmd_mac hw cmd out
       = Some (0, ''MAC '' @ mac_text (map (esp_read_mac hw) [0..<6]) @ drop 21 out)"
    if "21 \<le> length out"
    using that by (rule process_cmd_mac_closed)
  have 6: "c_str (''MAC '' @ mac_text (map (esp_read_mac hw) [0..<6]) @ drop 21 out) = None"
    if "NUL \<notin> set out"
  proof -
    have "NUL \<notin> set (drop 21 out)" using that by (auto dest: in_set_dropD)
    then have "NUL \<notin> set (''MAC '' @ mac_text (map (esp_read_mac hw) [0..<6]) @ drop 21 out)"
      using mac_response_props(1) [of hw] by simp
    then show ?thesis unfolding c_str_def by (rule if_not_P)
  qed
  have 7: "reply (process_command L hw (Ptr ''mac'') (Ptr out))
             = Some (0, ''MAC '' @ mac_text (map (esp_read_mac hw) [0..<6]))"
    if "22 \<le> L \<and> L \<le> length out"
    using that process_command_mac by blast
  show ?thesis
    using 1 2 3 4 5 6 7 by blast
qed

theorem mac_to_string_frame_witness:
  "length [0x01, 0x02, 0xAB, 0xCD, 0xEF, 0x00 :: 8 word] = 6
    \<and> 2 + 17 \<le> length (replicate 24 (CHR ''Z''))
    \<and> (\<exists>out'. mac_to_string (Ptr [0x01, 0x02, 0xAB, 0xCD, 0xEF, 0x00]) (Ptr (replicate 24 (CHR ''Z''))) 2
           = Some (Ptr out')
         \<and> length out' = length (replicate 24 (CHR ''Z''))
         \<and> out' ! 1 = replicate 24 (CHR ''Z'') ! 1
         \<and> out' ! 19 = replicate 24 (CHR ''Z'') ! 19
         \<and> NUL \<notin> set out')
    \<and> process_cmd_mac bench (zero_Command 24) (replicate 24 (CHR ''Z''))
         = Some (0, ''MAC '' @ mac_text (map (esp_read_mac bench) [0..<6]) @ drop 21 (replicate 24 (CHR ''Z'')))
    \<and> c_str (''MAC '' @ mac_text (map (esp_read_mac bench) [0..<6]) @ drop 21 (replicate 24 (CHR ''Z''))) = None
    \<and> reply (process_command 24 bench (Ptr ''mac'') (Ptr (replicate 24 (CHR ''Z''))))
         = Some (0, ''MAC '' @ mac_text (map (esp_read_mac bench) [0..<6]))
    \<and> ''MAC '' @ mac_text (map (esp_read_mac bench) [0..<6]) = ''MAC 01:02:AB:CD:EF:00''"
proof -
  have h1: "length [0x01, 0x02, 0xAB, 0xCD, 0xEF, 0x00 :: 8 word] = 6" by simp
  have h2: "2 + 17 \<le> length (replicate 24 (CHR ''Z''))" by simp
  have h3: "(1::nat) < length (replicate 24 (CHR ''Z''))" "(1::nat) < 2 \<or> 2 + 17 \<le> (1::nat)"
    "(19::nat) < length (replicate 24 (CHR ''Z''))" "(19::nat) < 2 \<or> 2 + 17 \<le> (19::nat)"
    by simp_all
  have h4: "NUL \<notin> set (replicate 24 (CHR ''Z''))" by simp
  have h5: "21 \<le> length (replicate 24 (CHR ''Z''))" by simp
  have h6: "(22::nat) \<le> 24 \<and> 24 \<le> length (replicate 24 (CHR ''Z''))" by simp
  have m: "map (esp_read_mac bench) [0..<6] = [0x01, 0x02, 0xAB, 0xCD, 0xEF, 0x00]"
    by (simp add: bench_def upt_conv_Cons)
  have e: "''MAC '' @ mac_text (map (esp_read_mac bench) [0..<6]) = ''MAC 01:02:AB:CD:EF:00''"
    unfolding m mac_text_example by simp
  show ?thesis
    using h1 h2 h3 h4 h5 h6 e
      mac_to_string_frame [OF h1 h2, of bench "zero_Command 24" 24]
    by blast
qed

end
